theory Spec2Isabelle
  imports Complex_Main "HOL-Library.Multiset" "HOL-Library.Sublist"
begin

section \<open>JavaScript values, promises and numbers\<close>

text \<open>
  A value that is thrown, or that a promise is rejected with. The code only ever reads
  its \<open>message\<close> property inside a template literal:
  \<^item> \<open>ErrorObj m\<close>: an object whose \<open>message\<close> prints as \<open>m\<close> (an \<open>Error\<close>);
  \<^item> \<open>NoMessage\<close>: a value without that property (a thrown string or number), for
    which the template literal prints \<open>undefined\<close>;
  \<^item> \<open>Nullish\<close>: \<open>null\<close> or \<open>undefined\<close>; reading \<open>.message\<close> from it throws a
    \<open>TypeError\<close>.
\<close>

datatype js_value = ErrorObj string | NoMessage | Nullish

definition type_error :: js_value where
  "type_error = ErrorObj ''Cannot read properties of undefined (reading 'message')''"

text \<open>\<open>`${error.message}`\<close>: the text, or the \<open>TypeError\<close> the property read throws.\<close>

fun error_message :: "js_value \<Rightarrow> js_value + string" where
  "error_message (ErrorObj m) = Inr m"
| "error_message NoMessage = Inr ''undefined''"
| "error_message Nullish = Inl type_error"

text \<open>
  The state a promise ends in. \<open>Pending\<close> stands for a promise that never settles.
\<close>

datatype 'a promise = Pending | Fulfilled 'a | Rejected js_value

text \<open>
  Decimal printing of a non-negative integer, as a template literal prints a count.
\<close>

definition digit_char :: "nat \<Rightarrow> char" where
  "digit_char d = char_of (48 + d)"

fun show_nat :: "nat \<Rightarrow> string" where
  "show_nat n = (if n < 10 then [digit_char n] else show_nat (n div 10) @ [digit_char (n mod 10)])"

declare show_nat.simps [simp del]

section \<open>Data model (types.ts, baseAgent.ts)\<close>

text \<open>The \<open>Severity\<close> enum of types.ts, and the string each member stands for.\<close>

datatype severity = Critical | High | Medium | Low | Info

fun severity_value :: "severity \<Rightarrow> string" where
  "severity_value Critical = ''critical''"
| "severity_value High = ''high''"
| "severity_value Medium = ''medium''"
| "severity_value Low = ''low''"
| "severity_value Info = ''info''"

text \<open>
  An issue as a worker reports it. \<open>AgentFindings.issues\<close> is typed \<open>any[]\<close>: the
  \<open>severity\<close> of an issue is the string its worker wrote there, the value of an enum
  member or any other string.
\<close>

record issue =
  severity :: string
  title :: string
  description :: string
  location :: string
  suggestion :: string

record metadata =
  pagesAnalyzed :: "nat option"
  elementsChecked :: "nat option"

text \<open>
  \<open>AgentFindings\<close>. \<open>confidence\<close> is a JavaScript number holding one of a few decimal
  constants; it is modelled as the rational it denotes. \<open>analysisTime\<close> is a
  difference of two clock readings.
\<close>

record findings =
  agentId :: string
  agentName :: string
  category :: string
  issues :: "issue list"
  suggestions :: "string list"
  confidence :: rat
  analysisTime :: int
  metadata :: metadata

text \<open>
  An \<open>Agent\<close> as the Coordinator sees it: its identity and, for the run at hand, the
  state in which the promise returned by its \<open>analyze(context)\<close> ends.
\<close>

record agent =
  agent_id :: string
  agent_name :: string
  agent_emoji :: string
  analyze :: "findings promise"

section \<open>Synthesis (coordinatorAgent.ts, synthesize)\<close>

text \<open>The issue after \<open>{...issue, source, sourceEmoji}\<close>.\<close>

record tagged_issue = issue +
  source :: string
  sourceEmoji :: string

record agent_stat =
  stat_agent :: string
  stat_emoji :: "string option"
  issuesFound :: nat
  stat_confidence :: rat
  stat_analysisTime :: int

record summary_stats =
  totalIssues :: nat
  critical :: nat
  high :: nat
  medium :: nat
  low :: nat
  agentStats :: "agent_stat list"

record synthesized =
  summary :: summary_stats
  prioritizedIssues :: "tagged_issue list"
  agentFindings :: "findings list"

text \<open>The clipboard emoji U+1F4CB, in UTF-8, used when no agent matches.\<close>

definition default_emoji :: string where
  "default_emoji = [char_of (240::nat), char_of (159::nat), char_of (147::nat), char_of (139::nat)]"

text \<open>\<open>this.agents.find(a => a.id === f.agentId)?.emoji\<close>\<close>

definition find_emoji :: "agent list \<Rightarrow> findings \<Rightarrow> string option" where
  "find_emoji agents f = map_option agent_emoji (find (\<lambda>a. agent_id a = agentId f) agents)"

text \<open>\<open>... || default\<close>: an absent or empty emoji is falsy.\<close>

definition tag_issue :: "agent list \<Rightarrow> findings \<Rightarrow> issue \<Rightarrow> tagged_issue" where
  "tag_issue agents f i =
     issue.extend i (tagged_issue.fields (agentName f)
       (case find_emoji agents f of
          None \<Rightarrow> default_emoji
        | Some e \<Rightarrow> if e = [] then default_emoji else e))"

definition flatten_issues :: "agent list \<Rightarrow> findings list \<Rightarrow> tagged_issue list" where
  "flatten_issues agents fs = concat (map (\<lambda>f. map (tag_issue agents f) (issues f)) fs)"

text \<open>
  The property names that every object inherits from \<open>Object.prototype\<close>. Reading one
  of them from an object literal gives a function, and for \<open>__proto__\<close> the prototype
  object itself.
\<close>

definition object_prototype_names :: "string list" where
  "object_prototype_names =
     [''constructor'', ''hasOwnProperty'', ''isPrototypeOf'', ''propertyIsEnumerable'',
      ''toLocaleString'', ''toString'', ''valueOf'', ''__proto__'', ''__defineGetter__'',
      ''__defineSetter__'', ''__lookupGetter__'', ''__lookupSetter__'']"

text \<open>What reading a property gives: a number of the object's own, an inherited value, or \<open>undefined\<close>.\<close>

datatype lookup = Own nat | Inherited | Absent

text \<open>
  The table \<open>{ critical: 4, high: 3, medium: 2, low: 1 }\<close> read at a key,
  \<open>severityOrder[key]\<close>: the cast \<open>as keyof typeof severityOrder\<close> is erased at run time,
  and a key that names none of the four own properties is looked up in the prototype.
  A severity that is not a string reads the table at the string it converts to.
\<close>

definition severityOrder :: "string \<Rightarrow> lookup" where
  "severityOrder key =
     (if key = ''critical'' then Own 4
      else if key = ''high'' then Own 3
      else if key = ''medium'' then Own 2
      else if key = ''low'' then Own 1
      else if key \<in> set object_prototype_names then Inherited
      else Absent)"

text \<open>
  \<open>severityOrder[s] || 0\<close>: \<open>undefined\<close> and the number 0 are falsy and give 0; a function
  or an object is truthy and stays. \<open>None\<close> stands for such a value, which is not a
  number.
\<close>

definition severity_rank :: "string \<Rightarrow> nat option" where
  "severity_rank s =
     (case severityOrder s of
        Own n \<Rightarrow> Some (if n = 0 then 0 else n)
      | Inherited \<Rightarrow> None
      | Absent \<Rightarrow> Some 0)"

text \<open>
  The comparator \<open>(a, b) => severityB - severityA\<close>. Subtraction converts a function or
  an object to \<open>NaN\<close>, and the difference is then \<open>NaN\<close>, here \<open>None\<close>.
\<close>

definition compare_issues :: "tagged_issue \<Rightarrow> tagged_issue \<Rightarrow> int option" where
  "compare_issues a b =
     (case (severity_rank (severity b), severity_rank (severity a)) of
        (Some severityB, Some severityA) \<Rightarrow> Some (int severityB - int severityA)
      | _ \<Rightarrow> None)"

text \<open>How \<open>Array.prototype.sort\<close> reads what the comparator returns: \<open>NaN\<close> counts as \<open>+0\<close>.\<close>

definition sort_compare :: "('a \<Rightarrow> 'a \<Rightarrow> int option) \<Rightarrow> 'a \<Rightarrow> 'a \<Rightarrow> int" where
  "sort_compare cmp x y = (case cmp x y of None \<Rightarrow> 0 | Some v \<Rightarrow> v)"

text \<open>
  \<open>Array.prototype.sort\<close> is stable (ECMAScript 2019): with a consistent comparator its
  result is the one ordered arrangement of the array in which elements that compare
  equal keep their order. A comparator that returns \<open>NaN\<close> for some pairs and numbers
  for others need not be consistent, and the language then leaves the order to the
  engine. The extension runs in Chrome; what follows is the sort of its engine, V8, for
  an array of fewer than 64 elements: the run at the front of the array is found and
  the remaining elements are put into it one after the other by binary insertion.
  Longer arrays are cut into several such runs, which are then merged; with a
  consistent comparator this gives the same list.

  \<open>extend_run\<close>: the run goes on while each element compares with the one before it
  the way the first two do: below it in a descending run, not below it otherwise.
\<close>

fun extend_run :: "bool \<Rightarrow> ('a \<Rightarrow> 'a \<Rightarrow> int) \<Rightarrow> 'a \<Rightarrow> 'a list \<Rightarrow> 'a list \<times> 'a list" where
  "extend_run descending cmp previous [] = ([], [])"
| "extend_run descending cmp previous (x # xs) =
     (if (if descending then cmp x previous \<ge> 0 else cmp x previous < 0)
      then ([], x # xs)
      else (case extend_run descending cmp x xs of (run, rest) \<Rightarrow> (x # run, rest)))"

text \<open>The run at the front, a descending one reversed, and the elements after it.\<close>

fun count_and_make_run :: "('a \<Rightarrow> 'a \<Rightarrow> int) \<Rightarrow> 'a list \<Rightarrow> 'a list \<times> 'a list" where
  "count_and_make_run cmp [] = ([], [])"
| "count_and_make_run cmp [x] = ([x], [])"
| "count_and_make_run cmp (x # y # xs) =
     (case extend_run (cmp y x < 0) cmp y xs of
        (run, rest) \<Rightarrow> (if cmp y x < 0 then rev (x # y # run) else x # y # run, rest))"

text \<open>
  The place of the pivot among the elements before it: the search halves the range
  between \<open>left\<close> and \<open>right\<close>, going left when the pivot compares below the element in
  the middle and right otherwise.
\<close>

function binary_search :: "('a \<Rightarrow> 'a \<Rightarrow> int) \<Rightarrow> 'a \<Rightarrow> 'a list \<Rightarrow> nat \<Rightarrow> nat \<Rightarrow> nat" where
  "binary_search cmp pivot xs left right =
     (if left < right
      then (if cmp pivot (xs ! (left + (right - left) div 2)) < 0
            then binary_search cmp pivot xs left (left + (right - left) div 2)
            else binary_search cmp pivot xs (left + (right - left) div 2 + 1) right)
      else left)"
  by pat_completeness auto
termination
  by (relation "measure (\<lambda>(cmp, pivot, xs, left, right). right - left)") auto

declare binary_search.simps [simp del]

definition binary_insert :: "('a \<Rightarrow> 'a \<Rightarrow> int) \<Rightarrow> 'a list \<Rightarrow> 'a \<Rightarrow> 'a list" where
  "binary_insert cmp ys pivot =
     (let left = binary_search cmp pivot ys 0 (length ys)
      in take left ys @ pivot # drop left ys)"

definition array_sort :: "('a \<Rightarrow> 'a \<Rightarrow> int) \<Rightarrow> 'a list \<Rightarrow> 'a list" where
  "array_sort cmp xs =
     (case count_and_make_run cmp xs of (run, rest) \<Rightarrow> foldl (binary_insert cmp) run rest)"

text \<open>\<open>allIssues.filter(i => i.severity === s).length\<close>\<close>

definition count_severity :: "string \<Rightarrow> tagged_issue list \<Rightarrow> nat" where
  "count_severity s xs = length (filter (\<lambda>i. severity i = s) xs)"

definition make_agent_stat :: "agent list \<Rightarrow> findings \<Rightarrow> agent_stat" where
  "make_agent_stat agents f =
     \<lparr> stat_agent = agentName f, stat_emoji = find_emoji agents f,
       issuesFound = length (issues f), stat_confidence = confidence f,
       stat_analysisTime = analysisTime f \<rparr>"

definition synthesize :: "agent list \<Rightarrow> findings list \<Rightarrow> synthesized" where
  "synthesize agents fs =
     (let allIssues = array_sort (sort_compare compare_issues) (flatten_issues agents fs);
          stats = \<lparr> totalIssues = length allIssues,
                    critical = count_severity ''critical'' allIssues,
                    high = count_severity ''high'' allIssues,
                    medium = count_severity ''medium'' allIssues,
                    low = count_severity ''low'' allIssues,
                    agentStats = map (make_agent_stat agents) fs \<rparr>
      in \<lparr> summary = stats, prioritizedIssues = allIssues, agentFindings = fs \<rparr>)"

text \<open>
  The order in the words of the specification: the ranks are critical 4, high 3,
  medium 2, low 1 and 0 for every other severity, and the prioritized issues are the
  flattened issues in a stable sort by descending rank.
\<close>

definition spec_rank :: "string \<Rightarrow> nat" where
  "spec_rank s =
     (if s = ''critical'' then 4 else if s = ''high'' then 3
      else if s = ''medium'' then 2 else if s = ''low'' then 1 else 0)"

definition spec_compare :: "tagged_issue \<Rightarrow> tagged_issue \<Rightarrow> int" where
  "spec_compare a b = int (spec_rank (severity b)) - int (spec_rank (severity a))"

definition spec_prioritized :: "agent list \<Rightarrow> findings list \<Rightarrow> tagged_issue list" where
  "spec_prioritized agents fs = array_sort spec_compare (flatten_issues agents fs)"

section \<open>Summary generation (openai.ts, baseAgent.ts callAI, coordinatorAgent.ts)\<close>

text \<open>
  The text-generation collaborator for one call: what the credential store returns
  (an error, no key, or a key) and how the completion request ends (the \<open>content\<close> of
  the first choice, which may be \<open>null\<close>; a rejection; or no answer at all).
\<close>

record ai_service =
  stored_key :: "js_value + string option"
  completion :: "string option promise"

definition key_not_found :: js_value where
  "key_not_found = ErrorObj ''OpenAI API Key not found. Please set it in the extension settings.''"

text \<open>\<open>createOpenAIClient\<close>: \<open>if (!apiKey) throw\<close>; a missing and an empty key are falsy.\<close>

definition createOpenAIClient :: "js_value + string option \<Rightarrow> js_value + string" where
  "createOpenAIClient stored =
     (case stored of
        Inl e \<Rightarrow> Inl e
      | Inr None \<Rightarrow> Inl key_not_found
      | Inr (Some k) \<Rightarrow> if k = [] then Inl key_not_found else Inr k)"

text \<open>\<open>callAI\<close>: \<open>response.choices[0].message.content || ''\<close>.\<close>

definition callAI :: "ai_service \<Rightarrow> string promise" where
  "callAI svc =
     (case createOpenAIClient (stored_key svc) of
        Inl e \<Rightarrow> Rejected e
      | Inr client \<Rightarrow>
          (case completion svc of
             Pending \<Rightarrow> Pending
           | Rejected e \<Rightarrow> Rejected e
           | Fulfilled c \<Rightarrow> Fulfilled (case c of None \<Rightarrow> [] | Some s \<Rightarrow> s)))"

definition fallback_summary :: "synthesized \<Rightarrow> string" where
  "fallback_summary syn =
     ''Multi-agent analysis complete. Found '' @ show_nat (totalIssues (summary syn))
       @ '' issues across '' @ show_nat (length (agentStats (summary syn)))
       @ '' specialized agents.''"

text \<open>
  \<open>generateExecutiveSummary\<close>: the prompt is assembled from the statistics and the
  first five prioritized issues and handed to \<open>callAI\<close>; whatever is thrown inside the
  \<open>try\<close> block, by the assembly or by the call, ends in the same \<open>catch\<close>. The
  argument \<open>ai\<close> is how the \<open>try\<close> block ends.
\<close>

definition generateExecutiveSummary :: "synthesized \<Rightarrow> string promise \<Rightarrow> string promise" where
  "generateExecutiveSummary syn ai =
     (case ai of
        Pending \<Rightarrow> Pending
      | Fulfilled s \<Rightarrow> Fulfilled s
      | Rejected e \<Rightarrow> Fulfilled (fallback_summary syn))"

text \<open>
  The overall health score of \<open>convertToBugReport\<close> (multiAgentService.ts), computed
  from the four severity counts.
\<close>

definition health_overall :: "summary_stats \<Rightarrow> int" where
  "health_overall st =
     max 0 (min 100 (100 - (int (critical st) * 15 + int (high st) * 10
                              + int (medium st) * 5 + int (low st) * 2)))"

section \<open>The message bus (baseAgent.ts, MessageBus)\<close>

datatype message_type = TASK_ASSIGNMENT | PROGRESS_UPDATE | FINDINGS | QUESTION | RESPONSE

text \<open>The payload shapes the code builds or reads.\<close>

datatype payload =
    ProgressPayload string rat
  | FindingsPayload findings
  | QuestionPayload string string
  | ResponsePayload string

record agent_message =
  msg_agentId :: string
  msg_type :: message_type
  payload :: payload
  timestamp :: nat
  correlationId :: string

text \<open>
  A subscribed callback. \<open>Waiter cid p\<close> is the closure \<open>Agent.ask\<close> subscribes: it
  waits for the RESPONSE with correlation id \<open>cid\<close> and then resolves promise number
  \<open>p\<close>. \<open>Listener k\<close> is any other callback, number \<open>k\<close>; what it does with a
  message is outside the code at hand, except that it may throw.
\<close>

datatype callback = Listener nat | Waiter string nat

text \<open>
  Everything the code reads and writes besides its arguments: the subscriber array of
  the bus, the console line \<open>publish\<close> prints for every message, the calls made to
  listeners, the promises created by \<open>ask\<close>, and how often the clock has been read.
\<close>

record world =
  subscribers :: "callback list"
  console :: "agent_message list"
  calls :: "(nat \<times> agent_message) list"
  answers :: "string option promise list"
  clock_reads :: nat

text \<open>
  The surroundings: what listener \<open>k\<close> throws, if anything, when it is called with a
  message in a given world, and what the \<open>n\<close>-th reading of the millisecond clock is.
\<close>

record env =
  raises :: "nat \<Rightarrow> world \<Rightarrow> agent_message \<Rightarrow> js_value option"
  clock :: "nat \<Rightarrow> nat"

text \<open>\<open>Date.now()\<close> and \<open>new Date()\<close>.\<close>

definition date_now :: "env \<Rightarrow> world \<Rightarrow> nat \<times> world" where
  "date_now E w = (clock E (clock_reads w), w\<lparr>clock_reads := Suc (clock_reads w)\<rparr>)"

text \<open>\<open>msg.payload.answer\<close>: \<open>undefined\<close> for a payload of another shape.\<close>

fun payload_answer :: "payload \<Rightarrow> string option" where
  "payload_answer (ResponsePayload a) = Some a"
| "payload_answer _ = None"

text \<open>\<open>resolve(v)\<close>: settles a pending promise, and does nothing to a settled one.\<close>

definition resolve :: "nat \<Rightarrow> string option \<Rightarrow> world \<Rightarrow> world" where
  "resolve p v w =
     (if p < length (answers w) \<and> answers w ! p = Pending
      then w\<lparr>answers := (answers w)[p := Fulfilled v]\<rparr> else w)"

definition subscribe :: "callback \<Rightarrow> world \<Rightarrow> world" where
  "subscribe cb w = w\<lparr>subscribers := subscribers w @ [cb]\<rparr>"

text \<open>The function \<open>subscribe\<close> returns: it replaces the array by a filtered copy.\<close>

definition unsubscribe :: "callback \<Rightarrow> world \<Rightarrow> world" where
  "unsubscribe cb w = w\<lparr>subscribers := filter (\<lambda>sub. sub \<noteq> cb) (subscribers w)\<rparr>"

definition clear :: "world \<Rightarrow> world" where
  "clear w = w\<lparr>subscribers := []\<rparr>"

text \<open>
  \<open>this.subscribers.forEach(sub => sub(message))\<close>. The loop runs over the array it
  started with: \<open>unsubscribe\<close> installs a new array and leaves that one as it is. A
  callback that throws ends the loop, and the exception leaves \<open>publish\<close>.
\<close>

fun deliver :: "env \<Rightarrow> agent_message \<Rightarrow> callback list \<Rightarrow> world \<Rightarrow> unit promise \<times> world" where
  "deliver E m [] w = (Fulfilled (), w)"
| "deliver E m (Listener k # subs) w =
     (let w' = w\<lparr>calls := calls w @ [(k, m)]\<rparr>
      in case raises E k w m of
           Some e \<Rightarrow> (Rejected e, w')
         | None \<Rightarrow> deliver E m subs w')"
| "deliver E m (Waiter cid p # subs) w =
     (if correlationId m = cid \<and> msg_type m = RESPONSE
      then deliver E m subs (resolve p (payload_answer (payload m)) (unsubscribe (Waiter cid p) w))
      else deliver E m subs w)"

definition publish :: "env \<Rightarrow> agent_message \<Rightarrow> world \<Rightarrow> unit promise \<times> world" where
  "publish E m w = deliver E m (subscribers w) (w\<lparr>console := console w @ [m]\<rparr>)"

section \<open>The Agent base class (baseAgent.ts)\<close>

text \<open>\<open>`${this.id}-${Date.now()}`\<close>\<close>

definition message_cid :: "string \<Rightarrow> nat \<Rightarrow> string" where
  "message_cid aid t = aid @ ''-'' @ show_nat t"

text \<open>\<open>`${this.id}-to-${targetAgent.id}-${Date.now()}`\<close>\<close>

definition question_cid :: "string \<Rightarrow> string \<Rightarrow> nat \<Rightarrow> string" where
  "question_cid aid target t = aid @ ''-to-'' @ target @ ''-'' @ show_nat t"

text \<open>
  \<open>updateProgress\<close> and \<open>reportFindings\<close>: the object literal reads the clock twice,
  for \<open>timestamp\<close> and then for \<open>correlationId\<close>.
\<close>

definition updateProgress :: "env \<Rightarrow> string \<Rightarrow> string \<Rightarrow> rat \<Rightarrow> world \<Rightarrow> unit promise \<times> world" where
  "updateProgress E aid message progress w =
     (let (ts, w1) = date_now E w;
          (t, w2) = date_now E w1
      in publish E \<lparr> msg_agentId = aid, msg_type = PROGRESS_UPDATE,
                     payload = ProgressPayload message progress,
                     timestamp = ts, correlationId = message_cid aid t \<rparr> w2)"

definition reportFindings :: "env \<Rightarrow> string \<Rightarrow> findings \<Rightarrow> world \<Rightarrow> unit promise \<times> world" where
  "reportFindings E aid f w =
     (let (ts, w1) = date_now E w;
          (t, w2) = date_now E w1
      in publish E \<lparr> msg_agentId = aid, msg_type = FINDINGS,
                     payload = FindingsPayload f,
                     timestamp = ts, correlationId = message_cid aid t \<rparr> w2)"

text \<open>
  \<open>ask\<close>, an async function. If publishing the QUESTION throws, the promise it returns
  is rejected (\<open>Rejected e\<close>). Otherwise it returns the promise made by
  \<open>new Promise((resolve) => ...)\<close>, here the number \<open>p\<close> of a new entry of \<open>answers\<close>,
  after subscribing the waiter for it.
\<close>

definition ask :: "env \<Rightarrow> string \<Rightarrow> string \<Rightarrow> string \<Rightarrow> world \<Rightarrow> nat promise \<times> world" where
  "ask E aid target question w =
     (let (t, w1) = date_now E w;
          cid = question_cid aid target t;
          (ts, w2) = date_now E w1
      in case publish E \<lparr> msg_agentId = aid, msg_type = QUESTION,
                          payload = QuestionPayload question target,
                          timestamp = ts, correlationId = cid \<rparr> w2 of
           (Rejected e, w3) \<Rightarrow> (Rejected e, w3)
         | (_, w3) \<Rightarrow>
             (let p = length (answers w3)
              in (Fulfilled p, subscribe (Waiter cid p) (w3\<lparr>answers := answers w3 @ [Pending]\<rparr>))))"

text \<open>What users of the bus can do next, one call after the other.\<close>

datatype bus_op =
    Publish agent_message
  | Subscribe nat
  | Unsubscribe nat
  | Clear
  | Ask string string string

fun apply_op :: "env \<Rightarrow> bus_op \<Rightarrow> world \<Rightarrow> world" where
  "apply_op E (Publish m) w = snd (publish E m w)"
| "apply_op E (Subscribe k) w = subscribe (Listener k) w"
| "apply_op E (Unsubscribe k) w = unsubscribe (Listener k) w"
| "apply_op E Clear w = clear w"
| "apply_op E (Ask aid target question) w = snd (ask E aid target question w)"

fun run_ops :: "env \<Rightarrow> bus_op list \<Rightarrow> world \<Rightarrow> world" where
  "run_ops E [] w = w"
| "run_ops E (op # ops) w = run_ops E ops (apply_op E op w)"

text \<open>The RESPONSE a waiter for \<open>cid\<close> reacts to.\<close>

definition answers_to :: "string \<Rightarrow> agent_message \<Rightarrow> bool" where
  "answers_to cid m = (msg_type m = RESPONSE \<and> correlationId m = cid)"

fun published_by :: "bus_op \<Rightarrow> agent_message list" where
  "published_by (Publish m) = [m]"
| "published_by _ = []"

text \<open>The progress percentages an agent has published so far, oldest first.\<close>

fun progress_value :: "string \<Rightarrow> agent_message \<Rightarrow> rat list" where
  "progress_value aid m =
     (case payload m of
        ProgressPayload label p \<Rightarrow>
          if msg_agentId m = aid \<and> msg_type m = PROGRESS_UPDATE then [p] else []
      | _ \<Rightarrow> [])"

definition progress_of :: "string \<Rightarrow> world \<Rightarrow> rat list" where
  "progress_of aid w = concat (map (progress_value aid) (console w))"

definition empty_world :: world where
  "empty_world = \<lparr> subscribers = [], console = [], calls = [], answers = [], clock_reads = 0 \<rparr>"

section \<open>Running the body of an async function\<close>

text \<open>
  A piece of code that runs in a state \<open>'s\<close> and ends in a new state, either normally
  with a value (\<open>Fulfilled\<close>), or by throwing (\<open>Rejected\<close>), or stuck at an \<open>await\<close> whose
  promise never settles (\<open>Pending\<close>).
\<close>

type_synonym ('s, 'a) action = "'s \<Rightarrow> 'a promise \<times> 's"

definition returns :: "'a \<Rightarrow> ('s, 'a) action" where
  "returns x s = (Fulfilled x, s)"

text \<open>Sequencing: the second piece runs only if the first one ends normally.\<close>

definition then_do :: "('s, 'a) action \<Rightarrow> ('a \<Rightarrow> ('s, 'b) action) \<Rightarrow> ('s, 'b) action" where
  "then_do act rest s =
     (case act s of
        (Pending, s') \<Rightarrow> (Pending, s')
      | (Rejected e, s') \<Rightarrow> (Rejected e, s')
      | (Fulfilled x, s') \<Rightarrow> rest x s')"

text \<open>\<open>try { ... } catch (error) { ... }\<close>\<close>

definition try_catch :: "('s, 'a) action \<Rightarrow> (js_value \<Rightarrow> ('s, 'a) action) \<Rightarrow> ('s, 'a) action" where
  "try_catch act handler s =
     (case act s of
        (Rejected e, s') \<Rightarrow> handler e s'
      | r \<Rightarrow> r)"

text \<open>\<open>await p\<close> for a promise whose final state is known.\<close>

definition await :: "'a promise \<Rightarrow> ('s, 'a) action" where
  "await p s = (p, s)"

text \<open>A call that returns a value or throws, and touches no state.\<close>

definition call :: "js_value + 'a \<Rightarrow> ('s, 'a) action" where
  "call r s = (case r of Inl e \<Rightarrow> (Rejected e, s) | Inr x \<Rightarrow> (Fulfilled x, s))"

text \<open>
  A worker runs with its \<open>findings\<close> object and the world. These lift a step on one of
  the two to the pair.
\<close>

definition on_bus :: "(world, 'a) action \<Rightarrow> (findings \<times> world, 'a) action" where
  "on_bus act s = (case act (snd s) of (r, w') \<Rightarrow> (r, (fst s, w')))"

definition read_clock :: "env \<Rightarrow> (findings \<times> world, nat) action" where
  "read_clock E s = (case date_now E (snd s) of (t, w') \<Rightarrow> (Fulfilled t, (fst s, w')))"

definition update_findings :: "(findings \<Rightarrow> findings) \<Rightarrow> (findings \<times> world, unit) action" where
  "update_findings g s = (Fulfilled (), (g (fst s), snd s))"

definition get_findings :: "(findings \<times> world, findings) action" where
  "get_findings s = (Fulfilled (fst s), s)"

text \<open>\<open>findings.suggestions.push(...)\<close>\<close>

definition push_suggestions :: "string list \<Rightarrow> findings \<Rightarrow> findings" where
  "push_suggestions new f = f\<lparr>suggestions := suggestions f @ new\<rparr>"

text \<open>
  The \<open>catch (error: any)\<close> block every worker ends its analysis with: the confidence
  is lowered first, then \<open>error.message\<close> is read and pushed.
\<close>

definition analysis_failed :: "rat \<Rightarrow> js_value \<Rightarrow> (findings \<times> world, unit) action" where
  "analysis_failed c error =
     then_do (update_findings (\<lambda>f. f\<lparr>confidence := c\<rparr>)) (\<lambda>_.
     then_do (call (error_message error)) (\<lambda>m.
     update_findings (push_suggestions [''Error during analysis: '' @ m])))"

text \<open>
  What every worker does after its \<open>try\<close>/\<open>catch\<close>: stamp the analysis time, report
  the findings on the bus and return them.
\<close>

definition finish_analysis :: "env \<Rightarrow> string \<Rightarrow> nat \<Rightarrow> (findings \<times> world, findings) action" where
  "finish_analysis E aid startTime =
     then_do (read_clock E) (\<lambda>t.
     then_do (update_findings (\<lambda>f. f\<lparr>analysisTime := int t - int startTime\<rparr>)) (\<lambda>_.
     then_do get_findings (\<lambda>f.
     then_do (on_bus (reportFindings E aid f)) (\<lambda>_.
     get_findings))))"

text \<open>
  The frame the \<open>analyze\<close> methods of all workers share: read the clock, publish the
  first progress message, run the \<open>try\<close> block under the \<open>catch\<close> block with the
  worker's lowered confidence \<open>c\<close>, and finish. The \<open>findings\<close> object, created
  between the first message and the \<open>try\<close> block, is the first component of the
  state the frame starts in.
\<close>

definition worker_run ::
  "env \<Rightarrow> string \<Rightarrow> string \<Rightarrow> rat \<Rightarrow> rat \<Rightarrow> (findings \<times> world, unit) action
     \<Rightarrow> (findings \<times> world, findings) action" where
  "worker_run E aid label p c body =
     then_do (read_clock E) (\<lambda>startTime.
     then_do (on_bus (updateProgress E aid label p)) (\<lambda>_.
     then_do (try_catch body (analysis_failed c)) (\<lambda>_.
     finish_analysis E aid startTime)))"

section \<open>The discovery worker (discoveryAgent.ts)\<close>

text \<open>
  What the DOM queries of the discovery worker give on the page at hand, block by
  block; a block gives its counts or throws. \<open>link_scan\<close>: the numbers of links and of
  external links. \<open>control_scan\<close>: buttons, form controls, forms. \<open>media_scan\<close>:
  iframes, videos. \<open>landmark_scan\<close>: whether a \<open>nav\<close> and a \<open>main\<close> element exist.
\<close>

record discovery_page =
  link_scan :: "js_value + nat \<times> nat"
  control_scan :: "js_value + nat \<times> nat \<times> nat"
  media_scan :: "js_value + nat \<times> nat"
  landmark_scan :: "js_value + bool \<times> bool"

definition discovery_id :: string where
  "discovery_id = ''discovery''"

definition discovery_initial :: findings where
  "discovery_initial =
     \<lparr> agentId = discovery_id, agentName = ''Discovery Agent'', category = ''structure'',
       issues = [], suggestions = [], confidence = 1, analysisTime = 0,
       metadata = \<lparr> pagesAnalyzed = Some 1, elementsChecked = Some 0 \<rparr> \<rparr>"

definition missing_main :: issue where
  "missing_main =
     \<lparr> severity = ''medium'', title = ''Missing <main> landmark'',
       description = ''No <main> element found. This hurts accessibility and SEO.'',
       location = ''document'', suggestion = ''Wrap main content in <main> element'' \<rparr>"

definition missing_nav :: issue where
  "missing_nav =
     \<lparr> severity = ''low'', title = ''Missing <nav> landmark'',
       description = ''No <nav> element found for navigation.'',
       location = ''document'', suggestion = ''Use <nav> for primary navigation'' \<rparr>"

text \<open>The five suggestion strings, before \<open>.filter(Boolean)\<close> drops the empty ones.\<close>

definition discovery_suggestions :: "nat \<Rightarrow> nat \<Rightarrow> nat \<Rightarrow> nat \<Rightarrow> nat \<Rightarrow> nat \<Rightarrow> nat \<Rightarrow> string list" where
  "discovery_suggestions links external buttons inputs forms iframes videos =
     filter (\<lambda>s. s \<noteq> [])
       [ ''Found '' @ show_nat links @ '' links ('' @ show_nat external @ '' external)'',
         show_nat buttons @ '' interactive buttons'',
         show_nat inputs @ '' form controls across '' @ show_nat forms @ '' forms'',
         if iframes > 0 then ''Embedded content: '' @ show_nat iframes @ '' iframes'' else [],
         if videos > 0 then show_nat videos @ '' video elements'' else [] ]"

text \<open>The \<open>try\<close> block of \<open>DiscoveryAgent.analyze\<close>.\<close>

definition discovery_try :: "env \<Rightarrow> discovery_page \<Rightarrow> (findings \<times> world, unit) action" where
  "discovery_try E page =
     then_do (call (link_scan page)) (\<lambda>(links, external).
     then_do (on_bus (updateProgress E discovery_id ''Analyzing links...'' 30)) (\<lambda>_.
     then_do (call (control_scan page)) (\<lambda>(buttons, inputs, forms).
     then_do (on_bus (updateProgress E discovery_id ''Finding interactive elements...'' 60)) (\<lambda>_.
     then_do (call (media_scan page)) (\<lambda>(iframes, videos).
     then_do (on_bus (updateProgress E discovery_id ''Analyzing dynamic content...'' 80)) (\<lambda>_.
     then_do (call (landmark_scan page)) (\<lambda>(has_nav, has_main).
     then_do (update_findings (\<lambda>f. f
        \<lparr> issues := (if has_main then [] else [missing_main]) @ (if has_nav then [] else [missing_nav]),
          suggestions := discovery_suggestions links external buttons inputs forms iframes videos,
          metadata := (metadata f)\<lparr>elementsChecked := Some (links + buttons + inputs)\<rparr> \<rparr>)) (\<lambda>_.
     on_bus (updateProgress E discovery_id ''Complete!'' 100)))))))))"

text \<open>\<open>DiscoveryAgent.analyze\<close>: the state of the promise it returns, and the world after.\<close>

definition discovery_analyze :: "env \<Rightarrow> discovery_page \<Rightarrow> world \<Rightarrow> findings promise \<times> world" where
  "discovery_analyze E page w =
     (case worker_run E discovery_id ''Mapping page structure...'' 10 (1 / 2)
             (discovery_try E page) (discovery_initial, w) of
        (r, s) \<Rightarrow> (r, snd s))"

section \<open>The accessibility worker (accessibilityAgent.ts)\<close>

text \<open>
  The DOM queries of the accessibility worker, block by block. \<open>img_scan\<close>: the number
  of images and the issues for those without alt text. \<open>input_scan\<close>: the number of
  form controls and the issues for the unlabelled ones. \<open>button_scan\<close>: the number of
  interactive elements. \<open>heading_scan\<close>: the numbers of headings and of h1 headings.
  \<open>onclick_scan\<close>: the number of elements with a click handler and the issues for
  those the keyboard cannot reach.
\<close>

record accessibility_page =
  img_scan :: "js_value + nat \<times> issue list"
  input_scan :: "js_value + nat \<times> issue list"
  button_scan :: "js_value + nat"
  heading_scan :: "js_value + nat \<times> nat"
  onclick_scan :: "js_value + nat \<times> issue list"

definition accessibility_id :: string where
  "accessibility_id = ''accessibility''"

definition accessibility_initial :: findings where
  "accessibility_initial =
     \<lparr> agentId = accessibility_id, agentName = ''Accessibility Agent'',
       category = ''accessibility'', issues = [], suggestions = [], confidence = 9 / 10,
       analysisTime = 0, metadata = \<lparr> pagesAnalyzed = None, elementsChecked = Some 0 \<rparr> \<rparr>"

definition missing_h1 :: issue where
  "missing_h1 =
     \<lparr> severity = severity_value Medium, title = ''Missing H1 Heading'',
       description = ''Page does not have a main H1 heading, which hurts accessibility and SEO.'',
       location = ''document'',
       suggestion = ''Add a single H1 heading that describes the main purpose of the page'' \<rparr>"

definition multiple_h1 :: "nat \<Rightarrow> issue" where
  "multiple_h1 h1Count =
     \<lparr> severity = severity_value Low, title = ''Multiple H1 Headings'',
       description = ''Found '' @ show_nat h1Count
          @ '' H1 headings. Best practice is to have only one H1 per page.'',
       location = ''document'',
       suggestion = ''Use only one H1 for the main page title, use H2-H6 for subsections'' \<rparr>"

definition h1_issues :: "nat \<Rightarrow> issue list" where
  "h1_issues h1Count =
     (if h1Count = 0 then [missing_h1] else if h1Count > 1 then [multiple_h1 h1Count] else [])"

text \<open>
  Step 6, the inner \<open>try\<close>/\<open>catch\<close> around \<open>await this.callAI(...)\<close>; \<open>ai\<close> is how the
  call ends.
\<close>

definition accessibility_insights ::
  "string promise \<Rightarrow> nat \<Rightarrow> nat \<Rightarrow> nat \<Rightarrow> nat \<Rightarrow> (findings \<times> world, unit) action" where
  "accessibility_insights ai images inputs headings found =
     try_catch
       (then_do (await ai) (\<lambda>aiAnalysis.
        update_findings (\<lambda>f. (push_suggestions [aiAnalysis] f)\<lparr>confidence := 95 / 100\<rparr>)))
       (\<lambda>error. update_findings (push_suggestions
          [ ''Checked '' @ show_nat images @ '' images, '' @ show_nat inputs @ '' inputs, ''
              @ show_nat headings @ '' headings'',
            ''Found '' @ show_nat found @ '' accessibility issues'' ]))"

text \<open>The outer \<open>try\<close> block of \<open>AccessibilityAgent.analyze\<close>.\<close>

definition accessibility_try ::
  "env \<Rightarrow> accessibility_page \<Rightarrow> string promise \<Rightarrow> (findings \<times> world, unit) action" where
  "accessibility_try E page ai =
     then_do (on_bus (updateProgress E accessibility_id ''Checking image alt text...'' 15)) (\<lambda>_.
     then_do (call (img_scan page)) (\<lambda>(images, img_issues).
     then_do (on_bus (updateProgress E accessibility_id ''Checking form labels...'' 30)) (\<lambda>_.
     then_do (call (input_scan page)) (\<lambda>(inputs, input_issues).
     then_do (on_bus (updateProgress E accessibility_id ''Analyzing color contrast...'' 45)) (\<lambda>_.
     then_do (call (button_scan page)) (\<lambda>buttons.
     then_do (update_findings (push_suggestions
        [''Found '' @ show_nat buttons @ '' interactive elements - recommend manual contrast check''])) (\<lambda>_.
     then_do (on_bus (updateProgress E accessibility_id ''Checking heading structure...'' 60)) (\<lambda>_.
     then_do (call (heading_scan page)) (\<lambda>(headings, h1Count).
     then_do (on_bus (updateProgress E accessibility_id ''Checking keyboard navigation...'' 75)) (\<lambda>_.
     then_do (call (onclick_scan page)) (\<lambda>(handlers, onclick_issues).
     then_do (on_bus (updateProgress E accessibility_id ''Generating AI insights...'' 90)) (\<lambda>_.
     then_do (accessibility_insights ai images inputs headings
        (length (img_issues @ input_issues @ h1_issues h1Count @ onclick_issues))) (\<lambda>_.
     then_do (update_findings (\<lambda>f. f
        \<lparr> issues := img_issues @ input_issues @ h1_issues h1Count @ onclick_issues,
          metadata := (metadata f)\<lparr>elementsChecked := Some (images + inputs + headings)\<rparr> \<rparr>)) (\<lambda>_.
     on_bus (updateProgress E accessibility_id ''Complete!'' 100)))))))))))))))"

text \<open>\<open>AccessibilityAgent.analyze\<close>; \<open>ai\<close> is how its \<open>callAI\<close> request ends.\<close>

definition accessibility_analyze ::
  "env \<Rightarrow> accessibility_page \<Rightarrow> string promise \<Rightarrow> world \<Rightarrow> findings promise \<times> world" where
  "accessibility_analyze E page ai w =
     (case worker_run E accessibility_id ''Starting accessibility audit...'' 5 (3 / 10)
             (accessibility_try E page ai) (accessibility_initial, w) of
        (r, s) \<Rightarrow> (r, snd s))"

section \<open>The performance worker (performanceAgent.ts)\<close>

text \<open>
  The queries of the performance worker, block by block. \<open>timing_scan\<close>: reading the
  navigation timing entry gives the issue for a slow load, if there is one, and the
  two suggestion lines with the load times (none without an entry); the times are
  floating-point numbers printed by \<open>toFixed\<close>, which are taken as the block gives
  them. \<open>image_scan\<close>: the numbers of images and of large images. \<open>blocking_scan\<close>:
  the numbers of synchronous scripts and of stylesheet links. \<open>resource_scan\<close>: the
  numbers of all scripts and of all styles.
\<close>

record performance_page =
  timing_scan :: "js_value + issue list \<times> string list"
  image_scan :: "js_value + nat \<times> nat"
  blocking_scan :: "js_value + nat \<times> nat"
  resource_scan :: "js_value + nat \<times> nat"

definition performance_id :: string where
  "performance_id = ''performance''"

definition performance_initial :: findings where
  "performance_initial =
     \<lparr> agentId = performance_id, agentName = ''Performance Agent'',
       category = ''performance'', issues = [], suggestions = [], confidence = 85 / 100,
       analysisTime = 0, metadata = \<lparr> pagesAnalyzed = None, elementsChecked = Some 0 \<rparr> \<rparr>"

definition large_images :: "nat \<Rightarrow> issue" where
  "large_images n =
     \<lparr> severity = severity_value Medium, title = ''Large Unoptimized Images'',
       description = ''Found '' @ show_nat n
          @ '' potentially large images that could be optimized.'',
       location = ''Images'',
       suggestion = ''Use modern formats (WebP/AVIF), implement lazy loading, serve responsive images'' \<rparr>"

definition blocking_javascript :: "nat \<Rightarrow> issue" where
  "blocking_javascript n =
     \<lparr> severity = severity_value Medium, title = ''Render-Blocking JavaScript'',
       description = ''Found '' @ show_nat n
          @ '' synchronous script tags that block rendering.'',
       location = ''Scripts'',
       suggestion = ''Add async or defer attributes to non-critical scripts, inline critical JS'' \<rparr>"

definition high_script_count :: "nat \<Rightarrow> issue" where
  "high_script_count n =
     \<lparr> severity = severity_value Low, title = ''High Script Count'',
       description = ''Page loads '' @ show_nat n @ '' script files. Consider bundling.'',
       location = ''Scripts'',
       suggestion = ''Bundle and minify JavaScript files to reduce HTTP requests'' \<rparr>"

text \<open>The local array \<open>issues\<close> at the end of the \<open>try\<close> block.\<close>

definition performance_issues :: "issue list \<Rightarrow> nat \<Rightarrow> nat \<Rightarrow> nat \<Rightarrow> issue list" where
  "performance_issues timing_issues large blocking scripts =
     timing_issues
     @ (if large > 0 then [large_images large] else [])
     @ (if blocking > 3 then [blocking_javascript blocking] else [])
     @ (if scripts > 15 then [high_script_count scripts] else [])"

text \<open>Step 5, the inner \<open>try\<close>/\<open>catch\<close> around \<open>await this.callAI(...)\<close>.\<close>

definition performance_insights ::
  "string promise \<Rightarrow> nat \<Rightarrow> nat \<Rightarrow> nat \<Rightarrow> nat \<Rightarrow> (findings \<times> world, unit) action" where
  "performance_insights ai scripts styles images found =
     try_catch
       (then_do (await ai) (\<lambda>aiAnalysis.
        update_findings (\<lambda>f. (push_suggestions [aiAnalysis] f)\<lparr>confidence := 95 / 100\<rparr>)))
       (\<lambda>error. update_findings (push_suggestions
          [ ''Total resources: '' @ show_nat scripts @ '' scripts, '' @ show_nat styles
              @ '' styles, '' @ show_nat images @ '' images'',
            ''Found '' @ show_nat found @ '' performance issues'' ]))"

text \<open>The outer \<open>try\<close> block of \<open>PerformanceAgent.analyze\<close>.\<close>

definition performance_try ::
  "env \<Rightarrow> performance_page \<Rightarrow> string promise \<Rightarrow> (findings \<times> world, unit) action" where
  "performance_try E page ai =
     then_do (on_bus (updateProgress E performance_id ''Analyzing Core Web Vitals...'' 20)) (\<lambda>_.
     then_do (call (timing_scan page)) (\<lambda>(timing_issues, timing_lines).
     then_do (update_findings (push_suggestions timing_lines)) (\<lambda>_.
     then_do (on_bus (updateProgress E performance_id ''Checking image sizes...'' 40)) (\<lambda>_.
     then_do (call (image_scan page)) (\<lambda>(images, large).
     then_do (on_bus (updateProgress E performance_id
        ''Detecting render-blocking resources...'' 60)) (\<lambda>_.
     then_do (call (blocking_scan page)) (\<lambda>(blockingScripts, blockingStyles).
     then_do (on_bus (updateProgress E performance_id ''Analyzing resource count...'' 75)) (\<lambda>_.
     then_do (call (resource_scan page)) (\<lambda>(allScripts, allStyles).
     then_do (on_bus (updateProgress E performance_id
        ''Generating AI recommendations...'' 90)) (\<lambda>_.
     then_do (performance_insights ai allScripts allStyles images
        (length (performance_issues timing_issues large blockingScripts allScripts))) (\<lambda>_.
     then_do (update_findings (\<lambda>f. f
        \<lparr> issues := performance_issues timing_issues large blockingScripts allScripts,
          metadata := (metadata f)\<lparr>elementsChecked := Some (images + allScripts + allStyles)\<rparr> \<rparr>)) (\<lambda>_.
     on_bus (updateProgress E performance_id ''Complete!'' 100)))))))))))))"

text \<open>\<open>PerformanceAgent.analyze\<close>; \<open>ai\<close> is how its \<open>callAI\<close> request ends.\<close>

definition performance_analyze ::
  "env \<Rightarrow> performance_page \<Rightarrow> string promise \<Rightarrow> world \<Rightarrow> findings promise \<times> world" where
  "performance_analyze E page ai w =
     (case worker_run E performance_id ''Measuring performance metrics...'' 10 (4 / 10)
             (performance_try E page ai) (performance_initial, w) of
        (r, s) \<Rightarrow> (r, snd s))"

section \<open>The security worker (securityAgent.ts)\<close>

text \<open>
  The page as the security worker reads it: its URL and the DOM queries, block by
  block. \<open>mixed_scan\<close>: the numbers of images and of scripts loaded over HTTP.
  \<open>inline_scan\<close>: the number of elements with an inline event handler. \<open>form_scan\<close>:
  the numbers of forms and of forms posting over HTTP. \<open>password_scan\<close>: the number of
  password fields and the indices of those that lie in a form. \<open>script_scan\<close>: the
  number of third-party scripts.
\<close>

record security_page =
  page_url :: string
  mixed_scan :: "js_value + nat \<times> nat"
  inline_scan :: "js_value + nat"
  form_scan :: "js_value + nat \<times> nat"
  password_scan :: "js_value + nat \<times> nat list"
  script_scan :: "js_value + nat"

definition security_id :: string where
  "security_id = ''security''"

definition security_initial :: findings where
  "security_initial =
     \<lparr> agentId = security_id, agentName = ''Security Agent'',
       category = ''security'', issues = [], suggestions = [], confidence = 80 / 100,
       analysisTime = 0, metadata = \<lparr> pagesAnalyzed = None, elementsChecked = Some 0 \<rparr> \<rparr>"

text \<open>\<open>context.url.startsWith('https://')\<close>\<close>

definition isHTTPS :: "security_page \<Rightarrow> bool" where
  "isHTTPS page = prefix ''https://'' (page_url page)"

definition not_https :: "string \<Rightarrow> issue" where
  "not_https url =
     \<lparr> severity = severity_value Critical, title = ''Site Not Using HTTPS'',
       description = ''Page is served over HTTP, making it vulnerable to man-in-the-middle attacks.'',
       location = url,
       suggestion = ''Implement HTTPS with a valid SSL/TLS certificate'' \<rparr>"

definition mixed_content :: "nat \<Rightarrow> nat \<Rightarrow> issue" where
  "mixed_content httpImages httpScripts =
     \<lparr> severity = severity_value High, title = ''Mixed Content Detected'',
       description = ''HTTPS page loading '' @ show_nat httpImages @ '' HTTP images and ''
          @ show_nat httpScripts @ '' HTTP scripts.'',
       location = ''Resources'',
       suggestion = ''Update all resource URLs to use HTTPS or protocol-relative URLs (//)'' \<rparr>"

definition inline_handlers :: "nat \<Rightarrow> issue" where
  "inline_handlers n =
     \<lparr> severity = severity_value Medium, title = ''Inline Event Handlers Found'',
       description = ''Found '' @ show_nat n @ '' inline event handlers which can be XSS vectors.'',
       location = ''Various elements'',
       suggestion = ''Use addEventListener() instead of inline event handlers, implement CSP'' \<rparr>"

definition insecure_forms :: "nat \<Rightarrow> issue" where
  "insecure_forms n =
     \<lparr> severity = severity_value Critical, title = ''Forms Submitting Over HTTP'',
       description = show_nat n @ '' forms submit data over unencrypted HTTP.'',
       location = ''Forms'',
       suggestion = ''Use HTTPS for all form submissions, especially those handling sensitive data'' \<rparr>"

definition password_over_http :: "nat \<Rightarrow> issue" where
  "password_over_http index =
     \<lparr> severity = severity_value Critical, title = ''Password Field Over HTTP'',
       description = ''Password input on non-HTTPS page exposes credentials.'',
       location = ''form:nth-of-type('' @ show_nat (index + 1) @ '')'',
       suggestion = ''Use HTTPS for all pages with password fields'' \<rparr>"

text \<open>The local array \<open>issues\<close> at the end of the \<open>try\<close> block.\<close>

definition security_issues ::
  "bool \<Rightarrow> string \<Rightarrow> nat \<Rightarrow> nat \<Rightarrow> nat \<Rightarrow> nat \<Rightarrow> nat list \<Rightarrow> issue list" where
  "security_issues https url httpImages httpScripts inlineEvents insecure in_form =
     (if https then [] else [not_https url])
     @ (if https \<and> (httpImages > 0 \<or> httpScripts > 0)
        then [mixed_content httpImages httpScripts] else [])
     @ (if inlineEvents > 0 then [inline_handlers inlineEvents] else [])
     @ (if insecure > 0 then [insecure_forms insecure] else [])
     @ (if https then [] else map password_over_http in_form)"

text \<open>
  The check mark U+2713 and the ballot cross U+2717 of the two summary lines, as the
  bytes of their UTF-8 encoding.
\<close>

definition check_mark :: string where
  "check_mark = [char_of (226 :: nat), char_of (156 :: nat), char_of (147 :: nat)]"

definition ballot_cross :: string where
  "ballot_cross = [char_of (226 :: nat), char_of (156 :: nat), char_of (151 :: nat)]"

text \<open>Step 7, the inner \<open>try\<close>/\<open>catch\<close> around \<open>await this.callAI(...)\<close>.\<close>

definition security_insights ::
  "string promise \<Rightarrow> bool \<Rightarrow> nat \<Rightarrow> (findings \<times> world, unit) action" where
  "security_insights ai https found =
     try_catch
       (then_do (await ai) (\<lambda>aiAnalysis.
        update_findings (\<lambda>f. (push_suggestions [aiAnalysis] f)\<lparr>confidence := 90 / 100\<rparr>)))
       (\<lambda>error. update_findings (push_suggestions
          [ ''Security check complete: '' @ show_nat found @ '' issues found'',
            if https then ''HTTPS: '' @ check_mark
            else ''HTTPS: '' @ ballot_cross @ '' (Critical)'' ]))"

text \<open>
  The outer \<open>try\<close> block of \<open>SecurityAgent.analyze\<close>. The query for mixed content runs
  on an HTTPS page only.
\<close>

definition security_try ::
  "env \<Rightarrow> security_page \<Rightarrow> string promise \<Rightarrow> (findings \<times> world, unit) action" where
  "security_try E page ai =
     then_do (on_bus (updateProgress E security_id ''Checking HTTPS...'' 15)) (\<lambda>_.
     then_do (on_bus (updateProgress E security_id ''Detecting mixed content...'' 30)) (\<lambda>_.
     then_do (if isHTTPS page then call (mixed_scan page) else returns (0, 0))
        (\<lambda>(httpImages, httpScripts).
     then_do (on_bus (updateProgress E security_id
        ''Checking for XSS vulnerabilities...'' 45)) (\<lambda>_.
     then_do (call (inline_scan page)) (\<lambda>inlineEvents.
     then_do (on_bus (updateProgress E security_id ''Analyzing form security...'' 60)) (\<lambda>_.
     then_do (call (form_scan page)) (\<lambda>(forms, insecure).
     then_do (call (password_scan page)) (\<lambda>(passwordInputs, in_form).
     then_do (on_bus (updateProgress E security_id
        ''Analyzing third-party scripts...'' 75)) (\<lambda>_.
     then_do (call (script_scan page)) (\<lambda>externalScripts.
     then_do (update_findings (push_suggestions
        (if externalScripts > 5
         then [''Found '' @ show_nat externalScripts
                 @ '' third-party scripts - review for supply chain risks'']
         else []))) (\<lambda>_.
     then_do (on_bus (updateProgress E security_id
        ''Generating security assessment...'' 90)) (\<lambda>_.
     then_do (security_insights ai (isHTTPS page)
        (length (security_issues (isHTTPS page) (page_url page) httpImages httpScripts
                   inlineEvents insecure in_form))) (\<lambda>_.
     then_do (update_findings (\<lambda>f. f
        \<lparr> issues := security_issues (isHTTPS page) (page_url page) httpImages httpScripts
                      inlineEvents insecure in_form,
          metadata := (metadata f)\<lparr>elementsChecked := Some (inlineEvents + forms + externalScripts)\<rparr> \<rparr>)) (\<lambda>_.
     on_bus (updateProgress E security_id ''Complete!'' 100)))))))))))))))"

text \<open>\<open>SecurityAgent.analyze\<close>; \<open>ai\<close> is how its \<open>callAI\<close> request ends.\<close>

definition security_analyze ::
  "env \<Rightarrow> security_page \<Rightarrow> string promise \<Rightarrow> world \<Rightarrow> findings promise \<times> world" where
  "security_analyze E page ai w =
     (case worker_run E security_id ''Starting security scan...'' 10 (3 / 10)
             (security_try E page ai) (security_initial, w) of
        (r, s) \<Rightarrow> (r, snd s))"

section \<open>The UX worker (uxAgent.ts)\<close>

text \<open>
  The page as the UX worker reads it. \<open>viewport_scan\<close>: whether there is a viewport
  meta tag. \<open>target_scan\<close>: the numbers of interactive elements and of those smaller
  than 44 by 44 pixels. \<open>layout_scan\<close>: the number of layout elements.
  \<open>paragraph_scan\<close>: the numbers of paragraphs and of long ones. \<open>cta_scan\<close>: the number
  of interactive elements whose text has a call-to-action keyword. \<open>screenshots\<close>: the
  optional array of screenshots of the page context.
\<close>

record ux_page =
  viewport_scan :: "js_value + bool"
  target_scan :: "js_value + nat \<times> nat"
  layout_scan :: "js_value + nat"
  paragraph_scan :: "js_value + nat \<times> nat"
  cta_scan :: "js_value + nat"
  screenshots :: "string list option"

definition ux_id :: string where
  "ux_id = ''ux''"

definition ux_initial :: findings where
  "ux_initial =
     \<lparr> agentId = ux_id, agentName = ''UX/Design Agent'',
       category = ''ux'', issues = [], suggestions = [], confidence = 75 / 100,
       analysisTime = 0, metadata = \<lparr> pagesAnalyzed = None, elementsChecked = Some 0 \<rparr> \<rparr>"

definition missing_viewport :: issue where
  \<open>missing_viewport =
     \<lparr> severity = severity_value High, title = ''Missing Viewport Meta Tag'',
       description = ''Page lacks viewport meta tag, likely not mobile-optimized.'',
       location = ''<head>'',
       suggestion = ''Add: <meta name="viewport" content="width=device-width, initial-scale=1">'' \<rparr>\<close>

definition small_targets :: "nat \<Rightarrow> issue" where
  "small_targets n =
     \<lparr> severity = severity_value Medium, title = ''Small Touch Targets'',
       description = show_nat n
          @ '' interactive elements are smaller than recommended 44x44px touch target size.'',
       location = ''Buttons/Links'',
       suggestion = ''Increase padding/size to at least 44x44px for better mobile usability'' \<rparr>"

definition long_text :: "nat \<Rightarrow> issue" where
  "long_text n =
     \<lparr> severity = severity_value Low, title = ''Long Text Blocks'',
       description = show_nat n
          @ '' paragraphs have >500 characters, which can reduce readability.'',
       location = ''Content'',
       suggestion = ''Break up long paragraphs, use subheadings, bullet points for scannability'' \<rparr>"

text \<open>The local array \<open>issues\<close> at the end of the \<open>try\<close> block.\<close>

definition ux_issues :: "bool \<Rightarrow> nat \<Rightarrow> nat \<Rightarrow> issue list" where
  "ux_issues has_viewport small long =
     (if has_viewport then [] else [missing_viewport])
     @ (if small > 0 then [small_targets small] else [])
     @ (if long > 0 then [long_text long] else [])"

text \<open>
  Step 6. With screenshots, the vision request runs in a \<open>try\<close> block whose \<open>catch\<close>
  block only logs; without, three summary lines are pushed.
\<close>

definition ux_insights ::
  "string promise \<Rightarrow> string list option \<Rightarrow> bool \<Rightarrow> nat \<Rightarrow> nat
     \<Rightarrow> (findings \<times> world, unit) action" where
  "ux_insights ai shots has_viewport small buttons =
     (if (case shots of Some pictures \<Rightarrow> length pictures > 0 | None \<Rightarrow> False)
      then try_catch
             (then_do (await ai) (\<lambda>aiAnalysis.
              update_findings (\<lambda>f. (push_suggestions [aiAnalysis] f)\<lparr>confidence := 90 / 100\<rparr>)))
             (\<lambda>error. returns ())
      else update_findings (push_suggestions
             [ ''UX check complete (without screenshots)'',
               ''Mobile meta tag: '' @ (if has_viewport then check_mark else ballot_cross),
               ''Touch targets: '' @ show_nat small @ ''/'' @ show_nat buttons
                 @ '' need adjustment'' ]))"

text \<open>The outer \<open>try\<close> block of \<open>UXAgent.analyze\<close>.\<close>

definition ux_try :: "env \<Rightarrow> ux_page \<Rightarrow> string promise \<Rightarrow> (findings \<times> world, unit) action" where
  "ux_try E page ai =
     then_do (on_bus (updateProgress E ux_id ''Checking mobile responsiveness...'' 20)) (\<lambda>_.
     then_do (call (viewport_scan page)) (\<lambda>has_viewport.
     then_do (on_bus (updateProgress E ux_id ''Checking touch target sizes...'' 35)) (\<lambda>_.
     then_do (call (target_scan page)) (\<lambda>(buttons, small).
     then_do (on_bus (updateProgress E ux_id ''Analyzing visual consistency...'' 50)) (\<lambda>_.
     then_do (call (layout_scan page)) (\<lambda>allElements.
     then_do (update_findings (push_suggestions
        [''Page has '' @ show_nat allElements @ '' layout elements''])) (\<lambda>_.
     then_do (on_bus (updateProgress E ux_id ''Checking text readability...'' 65)) (\<lambda>_.
     then_do (call (paragraph_scan page)) (\<lambda>(paragraphs, long).
     then_do (call (cta_scan page)) (\<lambda>potentialCTAs.
     then_do (update_findings (push_suggestions
        [''Found '' @ show_nat potentialCTAs @ '' potential call-to-action buttons''])) (\<lambda>_.
     then_do (on_bus (updateProgress E ux_id ''Running AI visual analysis...'' 80)) (\<lambda>_.
     then_do (ux_insights ai (screenshots page) has_viewport small buttons) (\<lambda>_.
     then_do (update_findings (\<lambda>f. f
        \<lparr> issues := ux_issues has_viewport small long,
          metadata := (metadata f)\<lparr>elementsChecked := Some (buttons + paragraphs + allElements)\<rparr> \<rparr>)) (\<lambda>_.
     on_bus (updateProgress E ux_id ''Complete!'' 100)))))))))))))))"

text \<open>\<open>UXAgent.analyze\<close>; \<open>ai\<close> is how its \<open>callAI\<close> request ends.\<close>

definition ux_analyze ::
  "env \<Rightarrow> ux_page \<Rightarrow> string promise \<Rightarrow> world \<Rightarrow> findings promise \<times> world" where
  "ux_analyze E page ai w =
     (case worker_run E ux_id ''Analyzing UX and design...'' 10 (3 / 10)
             (ux_try E page ai) (ux_initial, w) of
        (r, s) \<Rightarrow> (r, snd s))"

section \<open>The five workers (multiAgentService.ts)\<close>

text \<open>
  The workers the service registers, each with the page as it reads it and, for those
  that consult the model, with the way the request ends.
\<close>

datatype worker =
    DiscoveryWorker discovery_page
  | AccessibilityWorker accessibility_page "string promise"
  | PerformanceWorker performance_page "string promise"
  | SecurityWorker security_page "string promise"
  | UXWorker ux_page "string promise"

fun run_analyze :: "env \<Rightarrow> worker \<Rightarrow> world \<Rightarrow> findings promise \<times> world" where
  "run_analyze E (DiscoveryWorker page) w = discovery_analyze E page w"
| "run_analyze E (AccessibilityWorker page ai) w = accessibility_analyze E page ai w"
| "run_analyze E (PerformanceWorker page ai) w = performance_analyze E page ai w"
| "run_analyze E (SecurityWorker page ai) w = security_analyze E page ai w"
| "run_analyze E (UXWorker page ai) w = ux_analyze E page ai w"

fun worker_id :: "worker \<Rightarrow> string" where
  "worker_id (DiscoveryWorker page) = discovery_id"
| "worker_id (AccessibilityWorker page ai) = accessibility_id"
| "worker_id (PerformanceWorker page ai) = performance_id"
| "worker_id (SecurityWorker page ai) = security_id"
| "worker_id (UXWorker page ai) = ux_id"

text \<open>The percentages of the \<open>updateProgress\<close> calls of each \<open>analyze\<close>, in program order.\<close>

fun schedule :: "worker \<Rightarrow> rat list" where
  "schedule (DiscoveryWorker page) = [10, 30, 60, 80, 100]"
| "schedule (AccessibilityWorker page ai) = [5, 15, 30, 45, 60, 75, 90, 100]"
| "schedule (PerformanceWorker page ai) = [10, 20, 40, 60, 75, 90, 100]"
| "schedule (SecurityWorker page ai) = [10, 15, 30, 45, 60, 75, 90, 100]"
| "schedule (UXWorker page ai) = [10, 20, 35, 50, 65, 80, 100]"

text \<open>The confidence the outer \<open>catch\<close> block of each \<open>analyze\<close> sets.\<close>

fun caught_confidence :: "worker \<Rightarrow> rat" where
  "caught_confidence (DiscoveryWorker page) = 1 / 2"
| "caught_confidence (AccessibilityWorker page ai) = 3 / 10"
| "caught_confidence (PerformanceWorker page ai) = 4 / 10"
| "caught_confidence (SecurityWorker page ai) = 3 / 10"
| "caught_confidence (UXWorker page ai) = 3 / 10"

text \<open>
  A worker has completed its analysis successfully when \<open>analyze\<close> fulfils with findings
  that do not carry the confidence its \<open>catch\<close> block sets.
\<close>

definition completed_successfully :: "rat \<Rightarrow> findings promise \<Rightarrow> bool" where
  "completed_successfully error_confidence r =
     (case r of Fulfilled f \<Rightarrow> confidence f \<noteq> error_confidence | _ \<Rightarrow> False)"

section \<open>The Coordinator (coordinatorAgent.ts)\<close>

definition coordinator_id :: string where
  "coordinator_id = ''coordinator''"

record report =
  executiveSummary :: string
  allFindings :: "findings list"
  synthesizedReport :: synthesized

text \<open>The record the Coordinator puts in place of a worker whose \<open>analyze\<close> rejected.\<close>

definition degraded :: "agent \<Rightarrow> string \<Rightarrow> findings" where
  "degraded a reason =
     \<lparr> agentId = agent_id a, agentName = agent_name a, category = ''error'', issues = [],
       suggestions = [''Agent failed: '' @ reason], confidence = 0, analysisTime = 0,
       metadata = \<lparr> pagesAnalyzed = None, elementsChecked = None \<rparr> \<rparr>"

text \<open>
  The inner \<open>try\<close>/\<open>catch\<close> of the callback given to \<open>this.agents.map\<close>: the promise of
  the callback ends as \<open>analyze\<close> does, except that a rejection is caught; the \<open>catch\<close>
  block reads \<open>error.message\<close>, which throws for \<open>null\<close> and \<open>undefined\<close>.
\<close>

definition guarded_analyze :: "agent \<Rightarrow> findings promise" where
  "guarded_analyze a =
     (case analyze a of
        Pending \<Rightarrow> Pending
      | Fulfilled f \<Rightarrow> Fulfilled f
      | Rejected error \<Rightarrow>
          (case error_message error of
             Inl thrown \<Rightarrow> Rejected thrown
           | Inr m \<Rightarrow> Fulfilled (degraded a m)))"

text \<open>
  \<open>index / this.agents.length * 60 + 10\<close>, as the rational number the floating-point
  expression approximates.
\<close>

definition dispatch_progress :: "nat \<Rightarrow> nat \<Rightarrow> rat" where
  "dispatch_progress index n = 10 + (of_nat index / of_nat n) * 60"

text \<open>\<open>`Running ${agent.name}...`\<close>\<close>

definition running_label :: "agent \<Rightarrow> string" where
  "running_label a = ''Running '' @ agent_name a @ ''...''"

text \<open>
  \<open>this.agents.map(async (agent, index) => ...)\<close>: the callbacks start one after the
  other; each publishes the Coordinator's progress and then calls \<open>analyze\<close>. A
  callback whose \<open>updateProgress\<close> throws gives a rejected promise, and the next
  callback still starts. The workers' own messages are not part of this function: a
  worker enters it with the final state of its promise.
\<close>

fun dispatch :: "env \<Rightarrow> nat \<Rightarrow> nat \<Rightarrow> agent list \<Rightarrow> world \<Rightarrow> findings promise list \<times> world" where
  "dispatch E n index [] w = ([], w)"
| "dispatch E n index (a # rest) w =
     (case updateProgress E coordinator_id (running_label a) (dispatch_progress index n) w of
        (started, w1) \<Rightarrow>
          (case dispatch E n (Suc index) rest w1 of
             (ps, w2) \<Rightarrow>
               ((case started of
                   Fulfilled u \<Rightarrow> guarded_analyze a
                 | Rejected e \<Rightarrow> Rejected e
                 | Pending \<Rightarrow> Pending) # ps, w2)))"

text \<open>
  \<open>Promise.all\<close>: rejected as soon as one promise is, fulfilled with all values in
  order once every promise is, pending otherwise. Of several rejections the first in
  time decides the reason; the model takes the first in the list.
\<close>

fun promise_all :: "'a promise list \<Rightarrow> 'a list promise" where
  "promise_all [] = Fulfilled []"
| "promise_all (p # ps) =
     (case p of
        Rejected e \<Rightarrow> Rejected e
      | Pending \<Rightarrow> (case promise_all ps of Rejected e \<Rightarrow> Rejected e | _ \<Rightarrow> Pending)
      | Fulfilled x \<Rightarrow>
          (case promise_all ps of
             Rejected e \<Rightarrow> Rejected e
           | Pending \<Rightarrow> Pending
           | Fulfilled xs \<Rightarrow> Fulfilled (x # xs)))"

definition run_agents :: "env \<Rightarrow> agent list \<Rightarrow> (world, findings list) action" where
  "run_agents E agents w =
     (case dispatch E (length agents) 0 agents w of (ps, w') \<Rightarrow> (promise_all ps, w'))"

definition world_clock :: "env \<Rightarrow> (world, nat) action" where
  "world_clock E w = (case date_now E w of (t, w') \<Rightarrow> (Fulfilled t, w'))"

text \<open>
  \<open>CoordinatorAgent.orchestrate\<close>; \<open>ai\<close> is how the \<open>try\<close> block of
  \<open>generateExecutiveSummary\<close> ends. The outer \<open>catch\<close> rethrows what it catches.
\<close>

definition orchestrate :: "env \<Rightarrow> string promise \<Rightarrow> agent list \<Rightarrow> (world, report) action" where
  "orchestrate E ai agents =
     then_do (updateProgress E coordinator_id ''Spawning specialized agents...'' 5) (\<lambda>_.
     then_do (world_clock E) (\<lambda>startTime.
     then_do (run_agents E agents) (\<lambda>found.
     then_do (world_clock E) (\<lambda>endTime.
     then_do (updateProgress E coordinator_id ''Synthesizing findings...'' 75) (\<lambda>_.
     then_do (updateProgress E coordinator_id ''Generating executive summary...'' 90) (\<lambda>_.
     then_do (await (generateExecutiveSummary (synthesize agents found) ai)) (\<lambda>summaryText.
     then_do (updateProgress E coordinator_id ''Complete!'' 100) (\<lambda>_.
     returns \<lparr> executiveSummary = summaryText, allFindings = found,
               synthesizedReport = synthesize agents found \<rparr>))))))))"

text \<open>
  The interpolation the specification describes for the worker at \<open>index\<close> of \<open>n\<close>
  reporting its own progress \<open>p\<close> (0 to 100): its share of the band from 10 to 75.
\<close>

definition spec_blend :: "nat \<Rightarrow> nat \<Rightarrow> rat \<Rightarrow> rat" where
  "spec_blend n index p = 10 + (of_nat index + p / 100) * (65 / of_nat n)"

section \<open>Auxiliary notions for the bus\<close>

text \<open>The listeners among the subscribers, in subscription order.\<close>

fun listeners :: "callback list \<Rightarrow> nat list" where
  "listeners [] = []"
| "listeners (Listener k # subs) = k # listeners subs"
| "listeners (Waiter cid p # subs) = listeners subs"

text \<open>
  Every waiter on the bus waits for a promise that exists. \<open>ask\<close> creates the promise
  before it subscribes the waiter, so that every world the code can reach is of this
  kind.
\<close>

definition wf_world :: "world \<Rightarrow> bool" where
  "wf_world w =
     list_all (\<lambda>cb. case cb of Waiter cid p \<Rightarrow> p < length (answers w) | Listener k \<Rightarrow> True)
       (subscribers w)"

text \<open>Promise \<open>p\<close> is pending, and only waiters for \<open>cid\<close> can resolve it.\<close>

definition waits :: "string \<Rightarrow> nat \<Rightarrow> world \<Rightarrow> bool" where
  "waits cid p w \<longleftrightarrow> p < length (answers w) \<and> answers w ! p = Pending \<and> wf_world w
      \<and> (\<forall>c. Waiter c p \<in> set (subscribers w) \<longrightarrow> c = cid)"

definition unrejected :: "nat \<Rightarrow> world \<Rightarrow> bool" where
  "unrejected p w \<longleftrightarrow> p < length (answers w) \<and> (\<forall>e. answers w ! p \<noteq> Rejected e)"

text \<open>No listener ever throws.\<close>

definition never_raises :: "env \<Rightarrow> bool" where
  "never_raises E \<longleftrightarrow> (\<forall>k w m. raises E k w m = None)"

section \<open>Auxiliary notions for the workers\<close>

text \<open>
  \<open>emits aid sched act\<close>: whatever state \<open>act\<close> starts in, the progress percentages it
  publishes for agent \<open>aid\<close> are the first few of \<open>sched\<close>, and all of \<open>sched\<close> when
  \<open>act\<close> ends normally.
\<close>

definition emits :: "string \<Rightarrow> rat list \<Rightarrow> (findings \<times> world, 'a) action \<Rightarrow> bool" where
  "emits aid sched act \<longleftrightarrow>
     (\<forall>s. \<exists>ps. progress_of aid (snd (snd (act s))) = progress_of aid (snd s) @ ps
            \<and> prefix ps sched \<and> ((\<exists>x. fst (act s) = Fulfilled x) \<longrightarrow> ps = sched))"

text \<open>
  \<open>completes E aid sched act\<close>: on a bus where no listener throws, \<open>act\<close> ends normally
  whenever it has published all of \<open>sched\<close>.
\<close>

definition completes :: "env \<Rightarrow> string \<Rightarrow> rat list \<Rightarrow> (findings \<times> world, 'a) action \<Rightarrow> bool" where
  "completes E aid sched act \<longleftrightarrow>
     (\<forall>s. never_raises E
          \<and> progress_of aid (snd (snd (act s))) = progress_of aid (snd s) @ sched
          \<longrightarrow> (\<exists>x. fst (act s) = Fulfilled x))"

definition keeps_confidence :: "rat set \<Rightarrow> (findings \<times> world, 'a) action \<Rightarrow> bool" where
  "keeps_confidence cs act \<longleftrightarrow>
     (\<forall>s. confidence (fst s) \<in> cs \<longrightarrow> confidence (fst (snd (act s))) \<in> cs)"

text \<open>The exception a DOM query throws, if it throws.\<close>

fun thrown_by :: "js_value + 'a \<Rightarrow> js_value option" where
  "thrown_by (Inl e) = Some e"
| "thrown_by (Inr x) = None"

fun first_thrown :: "js_value option list \<Rightarrow> js_value option" where
  "first_thrown [] = None"
| "first_thrown (Some e # rest) = Some e"
| "first_thrown (None # rest) = first_thrown rest"

text \<open>
  The exception that ends the rule-based part of the \<open>try\<close> block, when no listener
  throws: the one of the first DOM query that throws.
\<close>

definition discovery_failure :: "discovery_page \<Rightarrow> js_value option" where
  "discovery_failure page =
     first_thrown [thrown_by (link_scan page), thrown_by (control_scan page),
                   thrown_by (media_scan page), thrown_by (landmark_scan page)]"

definition accessibility_failure :: "accessibility_page \<Rightarrow> js_value option" where
  "accessibility_failure page =
     first_thrown [thrown_by (img_scan page), thrown_by (input_scan page), thrown_by (button_scan page),
                   thrown_by (heading_scan page), thrown_by (onclick_scan page)]"

definition performance_failure :: "performance_page \<Rightarrow> js_value option" where
  "performance_failure page =
     first_thrown [thrown_by (timing_scan page), thrown_by (image_scan page),
                   thrown_by (blocking_scan page), thrown_by (resource_scan page)]"

definition security_failure :: "security_page \<Rightarrow> js_value option" where
  "security_failure page =
     first_thrown [if isHTTPS page then thrown_by (mixed_scan page) else None,
                   thrown_by (inline_scan page), thrown_by (form_scan page),
                   thrown_by (password_scan page), thrown_by (script_scan page)]"

definition ux_failure :: "ux_page \<Rightarrow> js_value option" where
  "ux_failure page =
     first_thrown [thrown_by (viewport_scan page), thrown_by (target_scan page),
                   thrown_by (layout_scan page), thrown_by (paragraph_scan page),
                   thrown_by (cta_scan page)]"

fun worker_failure :: "worker \<Rightarrow> js_value option" where
  "worker_failure (DiscoveryWorker page) = discovery_failure page"
| "worker_failure (AccessibilityWorker page ai) = accessibility_failure page"
| "worker_failure (PerformanceWorker page ai) = performance_failure page"
| "worker_failure (SecurityWorker page ai) = security_failure page"
| "worker_failure (UXWorker page ai) = ux_failure page"

text \<open>
  \<open>stamps E aid act\<close>: whatever state \<open>act\<close> starts in, the messages it publishes carry
  the correlation ids \<open>message_cid aid (clock E k)\<close> for clock readings \<open>k\<close> that it
  takes itself, in increasing order of \<open>k\<close>.
\<close>

definition stamps :: "env \<Rightarrow> string \<Rightarrow> (findings \<times> world, 'a) action \<Rightarrow> bool" where
  "stamps E aid act \<longleftrightarrow>
     (\<forall>s. \<exists>ks. map correlationId (console (snd (snd (act s))))
               = map correlationId (console (snd s)) @ map (\<lambda>k. message_cid aid (clock E k)) ks
            \<and> sorted_wrt (<) ks
            \<and> (\<forall>k\<in>set ks. clock_reads (snd s) \<le> k \<and> k < clock_reads (snd (snd (act s))))
            \<and> clock_reads (snd s) \<le> clock_reads (snd (snd (act s))))"

section \<open>Concrete runs\<close>

definition scenario_issue :: "string \<Rightarrow> severity \<Rightarrow> issue" where
  "scenario_issue t s =
     \<lparr> severity = severity_value s, title = t, description = [], location = [], suggestion = [] \<rparr>"

definition scenario_findings :: "string \<Rightarrow> string \<Rightarrow> issue list \<Rightarrow> findings" where
  "scenario_findings aid name found =
     \<lparr> agentId = aid, agentName = name, category = ''scenario'', issues = found,
       suggestions = [], confidence = 1, analysisTime = 0,
       metadata = \<lparr> pagesAnalyzed = None, elementsChecked = None \<rparr> \<rparr>"

definition findings_A :: findings where
  "findings_A = scenario_findings ''a'' ''Worker A''
     [scenario_issue ''A.critical'' Critical, scenario_issue ''A.high'' High,
      scenario_issue ''A.low'' Low]"

definition findings_B :: findings where
  "findings_B = scenario_findings ''b'' ''Worker B''
     [scenario_issue ''B.critical'' Critical, scenario_issue ''B.medium'' Medium]"

definition worker_A :: agent where
  "worker_A = \<lparr> agent_id = ''a'', agent_name = ''Worker A'', agent_emoji = ''A'',
                analyze = Fulfilled findings_A \<rparr>"

definition worker_B :: agent where
  "worker_B = \<lparr> agent_id = ''b'', agent_name = ''Worker B'', agent_emoji = ''B'',
                analyze = Fulfilled findings_B \<rparr>"

text \<open>
  Findings of worker A with an issue whose severity is the string \<open>constructor\<close>,
  followed by a critical one; and the same with a low issue in front.
\<close>

definition odd_issue :: issue where
  "odd_issue =
     \<lparr> severity = ''constructor'', title = ''A.odd'', description = [], location = [],
       suggestion = [] \<rparr>"

definition findings_odd :: findings where
  "findings_odd = scenario_findings ''a'' ''Worker A''
     [odd_issue, scenario_issue ''A.critical'' Critical]"

definition findings_odd_between :: findings where
  "findings_odd_between = scenario_findings ''a'' ''Worker A''
     [scenario_issue ''A.low'' Low, odd_issue, scenario_issue ''A.critical'' Critical]"

text \<open>Findings of worker A without issues.\<close>

definition findings_none :: findings where
  "findings_none = scenario_findings ''a'' ''Worker A'' []"

text \<open>A worker whose \<open>analyze\<close> rejects with \<open>new Error('boom')\<close>.\<close>

definition worker_X :: agent where
  "worker_X = \<lparr> agent_id = ''x'', agent_name = ''Worker X'', agent_emoji = ''X'',
                analyze = Rejected (ErrorObj ''boom'') \<rparr>"

text \<open>A bus on which nothing throws, and a clock that stands still.\<close>

definition quiet_env :: env where
  "quiet_env = \<lparr> raises = (\<lambda>k w m. None), clock = (\<lambda>n. 1000) \<rparr>"

text \<open>A collaborator without a stored credential.\<close>

definition no_credential :: ai_service where
  "no_credential = \<lparr> stored_key = Inr None, completion = Pending \<rparr>"

text \<open>A bus on which listener 0 throws \<open>new Error('boom')\<close> at every message.\<close>

definition faulty_env :: env where
  "faulty_env = \<lparr> raises = (\<lambda>k w m. if k = 0 then Some (ErrorObj ''boom'') else None),
                  clock = (\<lambda>n. 1000) \<rparr>"

definition progress_message :: agent_message where
  "progress_message =
     \<lparr> msg_agentId = ''discovery'', msg_type = PROGRESS_UPDATE,
       payload = ProgressPayload ''Analyzing links...'' 30, timestamp = 1000,
       correlationId = message_cid ''discovery'' 1000 \<rparr>"

definition response_message :: "string \<Rightarrow> string \<Rightarrow> agent_message" where
  "response_message cid answer =
     \<lparr> msg_agentId = ''b'', msg_type = RESPONSE, payload = ResponsePayload answer,
       timestamp = 1000, correlationId = cid \<rparr>"

text \<open>A fresh bus with the given listeners subscribed in that order.\<close>

definition listening :: "nat list \<Rightarrow> world" where
  "listening ks = empty_world\<lparr>subscribers := map Listener ks\<rparr>"

text \<open>A page with three links, of which one is external, and no \<open>main\<close> element.\<close>

definition sound_discovery_page :: discovery_page where
  "sound_discovery_page =
     \<lparr> link_scan = Inr (3, 1), control_scan = Inr (2, 1, 1), media_scan = Inr (0, 0),
       landmark_scan = Inr (True, False) \<rparr>"

text \<open>A page on which the query for buttons, form controls and forms throws.\<close>

definition broken_discovery_page :: discovery_page where
  "broken_discovery_page = sound_discovery_page\<lparr>control_scan := Inl (ErrorObj ''boom'')\<rparr>"

text \<open>A page with two images, one without alt text, and a single h1 heading.\<close>

definition sound_accessibility_page :: accessibility_page where
  "sound_accessibility_page =
     \<lparr> img_scan = Inr (2, [scenario_issue ''Missing Alt Attribute'' High]),
       input_scan = Inr (1, []), button_scan = Inr 4, heading_scan = Inr (3, 1),
       onclick_scan = Inr (0, []) \<rparr>"

text \<open>The same page with a query for headings that throws.\<close>

definition broken_accessibility_page :: accessibility_page where
  "broken_accessibility_page = sound_accessibility_page\<lparr>heading_scan := Inl (ErrorObj ''boom'')\<rparr>"

text \<open>A bus on which every listener throws when it is handed a progress of 100.\<close>

definition completion_hater :: env where
  "completion_hater =
     \<lparr> raises = (\<lambda>k w m. case payload m of
                    ProgressPayload label p \<Rightarrow> if p = 100 then Some (ErrorObj ''boom'') else None
                  | _ \<Rightarrow> None),
       clock = (\<lambda>n. 1000) \<rparr>"

text \<open>A page on which the query for buttons, form controls and forms throws \<open>undefined\<close>.\<close>

definition nullish_discovery_page :: discovery_page where
  "nullish_discovery_page = sound_discovery_page\<lparr>control_scan := Inl Nullish\<rparr>"

text \<open>
  A bus on which every listener checks the findings it is handed and throws when their
  confidence is below 1.
\<close>

definition wary_env :: env where
  "wary_env =
     \<lparr> raises = (\<lambda>k w m. case payload m of
                    FindingsPayload f \<Rightarrow>
                      if confidence f < 1 then Some (ErrorObj ''unreliable findings'') else None
                  | _ \<Rightarrow> None),
       clock = (\<lambda>n. 1000) \<rparr>"

text \<open>A worker whose \<open>analyze\<close> rejects with \<open>undefined\<close>, as \<open>Promise.reject()\<close> does.\<close>

definition worker_undefined :: agent where
  "worker_undefined = \<lparr> agent_id = ''u'', agent_name = ''Worker U'', agent_emoji = ''U'',
                        analyze = Rejected Nullish \<rparr>"

text \<open>The discovery worker, with the outcome of its run on the sound page.\<close>

definition discovery_worker :: agent where
  "discovery_worker =
     \<lparr> agent_id = discovery_id, agent_name = ''Discovery Agent'', agent_emoji = [],
       analyze = fst (discovery_analyze quiet_env sound_discovery_page (listening [0])) \<rparr>"

text \<open>
  A page with four images, two of them large, five synchronous scripts among twenty,
  and no navigation timing entry.
\<close>

definition sound_performance_page :: performance_page where
  "sound_performance_page =
     \<lparr> timing_scan = Inr ([], []), image_scan = Inr (4, 2), blocking_scan = Inr (5, 1),
       resource_scan = Inr (20, 2) \<rparr>"

text \<open>A page served over HTTP with a password field in its only form.\<close>

definition sound_security_page :: security_page where
  "sound_security_page =
     \<lparr> page_url = ''http://example.org/login'', mixed_scan = Inr (0, 0), inline_scan = Inr 0,
       form_scan = Inr (1, 0), password_scan = Inr (1, [0]), script_scan = Inr 2 \<rparr>"

text \<open>A page without a viewport meta tag and without screenshots.\<close>

definition sound_ux_page :: ux_page where
  "sound_ux_page =
     \<lparr> viewport_scan = Inr False, target_scan = Inr (6, 1), layout_scan = Inr 12,
       paragraph_scan = Inr (3, 0), cta_scan = Inr 1, screenshots = None \<rparr>"

text \<open>The same page with a query for paragraphs that throws.\<close>

definition broken_ux_page :: ux_page where
  "broken_ux_page = sound_ux_page\<lparr>paragraph_scan := Inl (ErrorObj ''boom'')\<rparr>"

text \<open>A bus on which nothing throws, and a clock that advances at every reading.\<close>

definition ticking_env :: env where
  "ticking_env = \<lparr> raises = (\<lambda>k w m. None), clock = (\<lambda>n. 1000 + n) \<rparr>"

section \<open>Properties of the synthesis\<close>

text \<open>The sort rearranges the array.\<close>

lemma extend_run_append:
  "extend_run d cmp p xs = (run, rest) \<Longrightarrow> run @ rest = xs"
  by (induction xs arbitrary: p run rest) (auto split: if_splits prod.splits)

lemma mset_binary_insert: "mset (binary_insert cmp ys x) = add_mset x (mset ys)"
proof -
  have "mset (take n ys @ x # drop n ys) = add_mset x (mset ys)" for n
  proof -
    have "mset (take n ys) + mset (drop n ys) = mset ys"
      by (metis append_take_drop_id mset_append)
    then show ?thesis by simp
  qed
  then show ?thesis by (simp add: binary_insert_def Let_def)
qed

lemma mset_foldl_binary_insert:
  "mset (foldl (binary_insert cmp) run rest) = mset run + mset rest"
  by (induction rest arbitrary: run) (simp_all add: mset_binary_insert)

lemma mset_count_and_make_run:
  "count_and_make_run cmp xs = (run, rest) \<Longrightarrow> mset run + mset rest = mset xs"
proof (induction cmp xs rule: count_and_make_run.induct)
  case (3 cmp x y xs)
  obtain r0 where e: "extend_run (cmp y x < 0) cmp y xs = (r0, rest)"
    and run: "run = (if cmp y x < 0 then rev (x # y # r0) else x # y # r0)"
    using 3 by (auto split: prod.splits)
  have "r0 @ rest = xs" using e by (rule extend_run_append)
  then have "mset xs = mset r0 + mset rest" by (metis mset_append)
  then show ?case using run by simp
qed simp_all

lemma mset_array_sort: "mset (array_sort cmp xs) = mset xs"
proof -
  obtain run rest where c: "count_and_make_run cmp xs = (run, rest)"
    by (cases "count_and_make_run cmp xs")
  show ?thesis
    using mset_count_and_make_run [OF c]
    by (simp add: array_sort_def c mset_foldl_binary_insert)
qed

lemma length_array_sort: "length (array_sort cmp xs) = length xs"
  using mset_array_sort [of cmp xs] by (metis size_mset)

lemma set_array_sort: "set (array_sort cmp xs) = set xs"
  using mset_array_sort [of cmp xs] by (metis set_mset_mset)


text \<open>The sort reads the comparator on pairs of elements of the array only.\<close>

lemma extend_run_cong:
  assumes "\<And>x y. x \<in> insert p (set xs) \<Longrightarrow> y \<in> insert p (set xs) \<Longrightarrow> cmp x y = cmp' x y"
  shows "extend_run d cmp p xs = extend_run d cmp' p xs"
  using assms
proof (induction xs arbitrary: p)
  case Nil
  then show ?case by simp
next
  case (Cons x xs)
  have "cmp x p = cmp' x p" using Cons.prems by simp
  moreover have "extend_run d cmp x xs = extend_run d cmp' x xs"
    using Cons.prems by (intro Cons.IH) simp_all
  ultimately show ?case by (cases d) simp_all
qed

lemma count_and_make_run_cong:
  assumes "\<And>x y. x \<in> set xs \<Longrightarrow> y \<in> set xs \<Longrightarrow> cmp x y = cmp' x y"
  shows "count_and_make_run cmp xs = count_and_make_run cmp' xs"
proof (cases xs)
  case Nil
  then show ?thesis by simp
next
  case (Cons x ys)
  show ?thesis
  proof (cases ys)
    case Nil
    then show ?thesis using Cons by simp
  next
    case (Cons y zs)
    have xs: "xs = x # y # zs" using \<open>xs = x # ys\<close> Cons by simp
    have "cmp y x = cmp' y x" using assms xs by simp
    moreover have "extend_run d cmp y zs = extend_run d cmp' y zs" for d
      using assms xs by (intro extend_run_cong) auto
    ultimately show ?thesis by (simp add: xs)
  qed
qed

lemma binary_search_bounds:
  "left \<le> right \<Longrightarrow> left \<le> binary_search cmp pivot xs left right
     \<and> binary_search cmp pivot xs left right \<le> right"
proof (induction cmp pivot xs left right rule: binary_search.induct)
  case (1 cmp pivot xs left right)
  show ?case
  proof (cases "left < right")
    case False
    then have "binary_search cmp pivot xs left right = left"
      by (subst binary_search.simps) simp
    then show ?thesis using 1(3) by simp
  next
    case True
    let ?mid = "left + (right - left) div 2"
    have m: "left \<le> ?mid" "?mid < right" using True by auto
    show ?thesis
    proof (cases "cmp pivot (xs ! ?mid) < 0")
      case lt: True
      have e: "binary_search cmp pivot xs left right = binary_search cmp pivot xs left ?mid"
        using True lt by (subst binary_search.simps) simp
      have "left \<le> binary_search cmp pivot xs left ?mid
          \<and> binary_search cmp pivot xs left ?mid \<le> ?mid"
        using 1(1) [OF True lt] m by simp
      then show ?thesis unfolding e using m by simp
    next
      case ge: False
      have e: "binary_search cmp pivot xs left right
          = binary_search cmp pivot xs (?mid + 1) right"
        using True ge by (subst binary_search.simps) simp
      have "?mid + 1 \<le> binary_search cmp pivot xs (?mid + 1) right
          \<and> binary_search cmp pivot xs (?mid + 1) right \<le> right"
        using 1(2) [OF True ge] m by simp
      then show ?thesis unfolding e using m by simp
    qed
  qed
qed

lemma binary_search_cong:
  assumes "\<And>y. y \<in> set xs \<Longrightarrow> cmp pivot y = cmp' pivot y" "right \<le> length xs"
  shows "binary_search cmp pivot xs left right = binary_search cmp' pivot xs left right"
  using assms
proof (induction cmp pivot xs left right rule: binary_search.induct)
  case (1 cmp pivot xs left right)
  show ?case
  proof (cases "left < right")
    case False
    have "binary_search cmp pivot xs left right = left"
      using False by (subst binary_search.simps) simp
    moreover have "binary_search cmp' pivot xs left right = left"
      using False by (subst binary_search.simps) simp
    ultimately show ?thesis by simp
  next
    case True
    let ?mid = "left + (right - left) div 2"
    have m: "?mid < right" using True by auto
    then have "xs ! ?mid \<in> set xs" using 1(4) by simp
    then have c: "cmp pivot (xs ! ?mid) = cmp' pivot (xs ! ?mid)" using 1(3) by simp
    show ?thesis
    proof (cases "cmp pivot (xs ! ?mid) < 0")
      case lt: True
      have e: "binary_search cmp pivot xs left right = binary_search cmp pivot xs left ?mid"
        using True lt by (subst binary_search.simps) simp
      have e': "binary_search cmp' pivot xs left right = binary_search cmp' pivot xs left ?mid"
        using True lt c by (subst binary_search.simps) simp
      have "binary_search cmp pivot xs left ?mid = binary_search cmp' pivot xs left ?mid"
        using 1(1) [OF True lt] 1(3) 1(4) m by simp
      then show ?thesis unfolding e e' .
    next
      case ge: False
      have e: "binary_search cmp pivot xs left right
          = binary_search cmp pivot xs (?mid + 1) right"
        using True ge by (subst binary_search.simps) simp
      have e': "binary_search cmp' pivot xs left right
          = binary_search cmp' pivot xs (?mid + 1) right"
        using True ge c by (subst binary_search.simps) simp
      have "binary_search cmp pivot xs (?mid + 1) right
          = binary_search cmp' pivot xs (?mid + 1) right"
        using 1(2) [OF True ge] 1(3) 1(4) by simp
      then show ?thesis unfolding e e' .
    qed
  qed
qed

lemma binary_insert_cong:
  assumes "\<And>y. y \<in> set ys \<Longrightarrow> cmp x y = cmp' x y"
  shows "binary_insert cmp ys x = binary_insert cmp' ys x"
  using binary_search_cong [of ys cmp x cmp' "length ys" 0] assms
  by (simp add: binary_insert_def)

lemma set_binary_insert: "set (binary_insert cmp ys x) = insert x (set ys)"
  using mset_binary_insert [of cmp ys x] by (metis set_mset_mset set_mset_add_mset_insert)

lemma foldl_binary_insert_cong:
  assumes "\<And>x y. x \<in> set run \<union> set rest \<Longrightarrow> y \<in> set run \<union> set rest \<Longrightarrow> cmp x y = cmp' x y"
  shows "foldl (binary_insert cmp) run rest = foldl (binary_insert cmp') run rest"
  using assms
proof (induction rest arbitrary: run)
  case Nil
  then show ?case by simp
next
  case (Cons x rest)
  have b: "binary_insert cmp run x = binary_insert cmp' run x"
    using Cons.prems by (intro binary_insert_cong) simp
  have "foldl (binary_insert cmp) (binary_insert cmp' run x) rest
      = foldl (binary_insert cmp') (binary_insert cmp' run x) rest"
    using Cons.prems by (intro Cons.IH) (auto simp: set_binary_insert)
  then show ?case by (simp add: b)
qed

lemma array_sort_cong:
  assumes "\<And>x y. x \<in> set xs \<Longrightarrow> y \<in> set xs \<Longrightarrow> cmp x y = cmp' x y"
  shows "array_sort cmp xs = array_sort cmp' xs"
proof -
  obtain run rest where c: "count_and_make_run cmp' xs = (run, rest)"
    by (cases "count_and_make_run cmp' xs")
  have c': "count_and_make_run cmp xs = (run, rest)"
    using count_and_make_run_cong [of xs cmp cmp'] assms c by simp
  have "set_mset (mset run + mset rest) = set xs"
    using mset_count_and_make_run [OF c] by simp
  then have s: "set run \<union> set rest = set xs" by simp
  have "foldl (binary_insert cmp) run rest = foldl (binary_insert cmp') run rest"
    using assms unfolding s [symmetric] by (rule foldl_binary_insert_cong)
  then show ?thesis by (simp add: array_sort_def c c')
qed


text \<open>
  With a comparator that subtracts keys, the result is in descending order of the keys,
  and the elements of one key keep their order.
\<close>

lemma extend_run_ascending:
  assumes "\<And>a b. cmp a b = int (key b) - int (key a)"
      and "extend_run False cmp p xs = (run, rest)"
  shows "sorted_wrt (\<lambda>a b. key b \<le> key a) (p # run)"
  using assms(2)
proof (induction xs arbitrary: p run rest)
  case Nil
  then show ?case by simp
next
  case (Cons x xs)
  show ?case
  proof (cases "cmp x p < 0")
    case True
    then show ?thesis using Cons.prems by simp
  next
    case False
    then have k: "key x \<le> key p" by (simp add: assms(1))
    obtain r where e: "extend_run False cmp x xs = (r, rest)" and run: "run = x # r"
      using Cons.prems False by (auto split: prod.splits)
    have "sorted_wrt (\<lambda>a b. key b \<le> key a) (x # r)" using e by (rule Cons.IH)
    then show ?thesis using k run by auto
  qed
qed

lemma extend_run_descending:
  assumes "\<And>a b. cmp a b = int (key b) - int (key a)"
      and "extend_run True cmp p xs = (run, rest)"
  shows "sorted_wrt (\<lambda>a b. key a < key b) (p # run)"
  using assms(2)
proof (induction xs arbitrary: p run rest)
  case Nil
  then show ?case by simp
next
  case (Cons x xs)
  show ?case
  proof (cases "cmp x p \<ge> 0")
    case True
    then show ?thesis using Cons.prems by simp
  next
    case False
    then have k: "key p < key x" by (simp add: assms(1))
    obtain r where e: "extend_run True cmp x xs = (r, rest)" and run: "run = x # r"
      using Cons.prems False by (auto split: prod.splits)
    have "sorted_wrt (\<lambda>a b. key a < key b) (x # r)" using e by (rule Cons.IH)
    then show ?thesis using k run by auto
  qed
qed

lemma filter_rev_strict:
  "sorted_wrt (\<lambda>a b. key a < key b) l \<Longrightarrow>
   filter (\<lambda>i. key i = c) (rev l) = filter (\<lambda>i. key i = (c::nat)) l"
proof (induction l)
  case Nil
  then show ?case by simp
next
  case (Cons x l)
  have ih: "filter (\<lambda>i. key i = c) (rev l) = filter (\<lambda>i. key i = c) l"
    using Cons by simp
  show ?case
  proof (cases "key x = c")
    case True
    have "\<forall>z\<in>set l. key z \<noteq> c" using Cons.prems True by auto
    then have "filter (\<lambda>i. key i = c) l = []" by (simp add: filter_empty_conv)
    then show ?thesis using True ih by simp
  next
    case False
    then show ?thesis using ih by simp
  qed
qed

lemma count_and_make_run_sorted:
  assumes kc: "\<And>a b. cmp a b = int (key b) - int (key a)"
      and c: "count_and_make_run cmp xs = (run, rest)"
  shows "sorted_wrt (\<lambda>a b. key b \<le> key a) run"
    and "filter (\<lambda>i. key i = k) run @ filter (\<lambda>i. key i = k) rest = filter (\<lambda>i. key i = k) xs"
proof -
  have "sorted_wrt (\<lambda>a b. key b \<le> key a) run
      \<and> filter (\<lambda>i. key i = k) run @ filter (\<lambda>i. key i = k) rest = filter (\<lambda>i. key i = k) xs"
  proof (cases xs)
    case Nil
    then show ?thesis using c by simp
  next
    case (Cons x ys)
    show ?thesis
    proof (cases ys)
      case Nil
      then show ?thesis using c Cons by auto
    next
      case (Cons y zs)
      have xs: "xs = x # y # zs" using \<open>xs = x # ys\<close> Cons by simp
      obtain r where e: "extend_run (cmp y x < 0) cmp y zs = (r, rest)"
        and run: "run = (if cmp y x < 0 then rev (x # y # r) else x # y # r)"
        using c xs by (auto split: prod.splits)
      have app: "r @ rest = zs" using e by (rule extend_run_append)
      show ?thesis
      proof (cases "cmp y x < 0")
        case True
        then have k: "key x < key y" by (simp add: kc)
        have "sorted_wrt (\<lambda>a b. key a < key b) (y # r)"
          using e True by (intro extend_run_descending [OF kc]) simp
        then have st: "sorted_wrt (\<lambda>a b. key a < key b) (x # y # r)" using k by auto
        then have "sorted_wrt (\<lambda>a b. key b < key a) (rev (x # y # r))"
          by (simp only: sorted_wrt_rev)
        then have "sorted_wrt (\<lambda>a b. key b \<le> key a) (rev (x # y # r))"
          by (rule sorted_wrt_mono_rel [rotated]) simp
        moreover have "filter (\<lambda>i. key i = k) (rev (x # y # r))
            = filter (\<lambda>i. key i = k) (x # y # r)"
          using st by (rule filter_rev_strict)
        then have "filter (\<lambda>i. key i = k) (rev (x # y # r)) @ filter (\<lambda>i. key i = k) rest
            = filter (\<lambda>i. key i = k) ((x # y # r) @ rest)"
          by (simp only: filter_append)
        ultimately show ?thesis using True run app xs by simp
      next
        case False
        then have k: "key y \<le> key x" by (simp add: kc)
        have "sorted_wrt (\<lambda>a b. key b \<le> key a) (y # r)"
          using e False by (intro extend_run_ascending [OF kc]) simp
        then have "sorted_wrt (\<lambda>a b. key b \<le> key a) (x # y # r)" using k by auto
        moreover have "filter (\<lambda>i. key i = k) (x # y # r) @ filter (\<lambda>i. key i = k) rest
            = filter (\<lambda>i. key i = k) ((x # y # r) @ rest)"
          by (simp only: filter_append)
        ultimately show ?thesis using False run app xs by simp
      qed
    qed
  qed
  then show "sorted_wrt (\<lambda>a b. key b \<le> key a) run"
    and "filter (\<lambda>i. key i = k) run @ filter (\<lambda>i. key i = k) rest = filter (\<lambda>i. key i = k) xs"
    by simp_all
qed

lemma binary_search_key:
  assumes "\<forall>a b. cmp a b = int (key b) - int (key a)"
      and "sorted_wrt (\<lambda>a b. key b \<le> key a) xs"
      and "left \<le> right" "right \<le> length xs"
      and "\<forall>i<left. key p \<le> key (xs ! i)"
      and "\<forall>i. right \<le> i \<and> i < length xs \<longrightarrow> key (xs ! i) < key p"
  shows "(\<forall>i<binary_search cmp p xs left right. key p \<le> key (xs ! i))
     \<and> (\<forall>i. binary_search cmp p xs left right \<le> i \<and> i < length xs \<longrightarrow> key (xs ! i) < key p)"
  using assms
proof (induction cmp p xs left right rule: binary_search.induct)
  case (1 cmp pivot xs left right)
  note kc = 1(3) and srt = 1(4) and le = 1(5) and len = 1(6) and below = 1(7) and above = 1(8)
  have mono: "key (xs ! j) \<le> key (xs ! i)" if "i < j" "j < length xs" for i j
    using sorted_wrt_nth_less [OF srt that] .
  show ?case
  proof (cases "left < right")
    case False
    then have e: "binary_search cmp pivot xs left right = left"
      by (subst binary_search.simps) simp
    have "left = right" using False le by simp
    then show ?thesis unfolding e using below above by simp
  next
    case True
    let ?mid = "left + (right - left) div 2"
    have m: "left \<le> ?mid" "?mid < right" using True by auto
    then have ml: "?mid < length xs" using len by simp
    show ?thesis
    proof (cases "cmp pivot (xs ! ?mid) < 0")
      case lt: True
      have e: "binary_search cmp pivot xs left right = binary_search cmp pivot xs left ?mid"
        using True lt by (subst binary_search.simps) simp
      have k: "key (xs ! ?mid) < key pivot" using lt kc by simp
      have above': "\<forall>i. ?mid \<le> i \<and> i < length xs \<longrightarrow> key (xs ! i) < key pivot"
      proof (intro allI impI)
        fix i assume i: "?mid \<le> i \<and> i < length xs"
        show "key (xs ! i) < key pivot"
        proof (cases "i = ?mid")
          case True
          then show ?thesis using k by simp
        next
          case False
          then have "?mid < i" using i by simp
          then have "key (xs ! i) \<le> key (xs ! ?mid)" using mono i by simp
          then show ?thesis using k by simp
        qed
      qed
      have len': "?mid \<le> length xs" using ml by simp
      show ?thesis
        unfolding e using 1(1) [OF True lt kc srt m(1) len' below above'] .
    next
      case ge: False
      have e: "binary_search cmp pivot xs left right
          = binary_search cmp pivot xs (?mid + 1) right"
        using True ge by (subst binary_search.simps) simp
      have k: "key pivot \<le> key (xs ! ?mid)" using ge kc by simp
      have below': "\<forall>i<?mid + 1. key pivot \<le> key (xs ! i)"
      proof (intro allI impI)
        fix i assume i: "i < ?mid + 1"
        show "key pivot \<le> key (xs ! i)"
        proof (cases "i = ?mid")
          case True
          then show ?thesis using k by simp
        next
          case False
          then have "i < ?mid" using i by simp
          then have "key (xs ! ?mid) \<le> key (xs ! i)" using mono ml by simp
          then show ?thesis using k by simp
        qed
      qed
      have le': "?mid + 1 \<le> right" using m(2) by simp
      show ?thesis
        unfolding e using 1(2) [OF True ge kc srt le' len below' above] .
    qed
  qed
qed

lemma binary_insert_key:
  assumes kc: "\<And>a b. cmp a b = int (key b) - int (key a)"
      and srt: "sorted_wrt (\<lambda>a b. key b \<le> key a) ys"
  shows "sorted_wrt (\<lambda>a b. key b \<le> key a) (binary_insert cmp ys p)"
    and "filter (\<lambda>i. key i = k) (binary_insert cmp ys p)
           = filter (\<lambda>i. key i = k) ys @ (if key p = k then [p] else [])"
proof -
  define n where "n = binary_search cmp p ys 0 (length ys)"
  have ins: "binary_insert cmp ys p = take n ys @ p # drop n ys"
    by (simp add: binary_insert_def n_def Let_def)
  have n: "n \<le> length ys"
    using binary_search_bounds [of 0 "length ys" cmp p ys] by (simp add: n_def)
  have "(\<forall>i<n. key p \<le> key (ys ! i))
     \<and> (\<forall>i. n \<le> i \<and> i < length ys \<longrightarrow> key (ys ! i) < key p)"
    unfolding n_def using kc srt by (intro binary_search_key) simp_all
  then have below: "\<And>i. i < n \<Longrightarrow> key p \<le> key (ys ! i)"
    and above: "\<And>i. n \<le> i \<Longrightarrow> i < length ys \<Longrightarrow> key (ys ! i) < key p"
    by simp_all
  have front: "key p \<le> key a" if "a \<in> set (take n ys)" for a
  proof -
    have "a \<in> image (nth ys) {0..<n}" using that nth_image [OF n] by simp
    then obtain i where "i < n" "a = ys ! i" by auto
    then show ?thesis using below [of i] by simp
  qed
  have behind: "key b < key p" if "b \<in> set (drop n ys)" for b
  proof -
    have "\<exists>i<length (drop n ys). drop n ys ! i = b"
      using that by (simp only: in_set_conv_nth)
    then obtain i where i: "i < length (drop n ys)" "drop n ys ! i = b" by blast
    have l: "n + i < length ys" using i(1) by simp
    have "drop n ys ! i = ys ! (n + i)" using n by (intro nth_drop)
    moreover have "key (ys ! (n + i)) < key p" using above [of "n + i"] l by simp
    ultimately show ?thesis using i(2) by simp
  qed
  have "sorted_wrt (\<lambda>a b. key b \<le> key a) (take n ys)"
    using srt by (rule sorted_wrt_take)
  moreover have "sorted_wrt (\<lambda>a b. key b \<le> key a) (drop n ys)"
    using srt by (rule sorted_wrt_drop)
  ultimately show "sorted_wrt (\<lambda>a b. key b \<le> key a) (binary_insert cmp ys p)"
    unfolding ins using front behind by (fastforce simp: sorted_wrt_append)
  have "filter (\<lambda>i. key i = k) (drop n ys) = []" if "key p = k"
  proof -
    have "key b \<noteq> k" if "b \<in> set (drop n ys)" for b
      using behind [OF that] \<open>key p = k\<close> by simp
    then show ?thesis by (simp add: filter_empty_conv)
  qed
  moreover have "filter (\<lambda>i. key i = k) ys
      = filter (\<lambda>i. key i = k) (take n ys) @ filter (\<lambda>i. key i = k) (drop n ys)"
    by (metis append_take_drop_id filter_append)
  ultimately show "filter (\<lambda>i. key i = k) (binary_insert cmp ys p)
           = filter (\<lambda>i. key i = k) ys @ (if key p = k then [p] else [])"
    unfolding ins by simp
qed

lemma foldl_binary_insert_key:
  assumes kc: "\<And>a b. cmp a b = int (key b) - int (key a)"
      and srt: "sorted_wrt (\<lambda>a b. key b \<le> key a) run"
  shows "sorted_wrt (\<lambda>a b. key b \<le> key a) (foldl (binary_insert cmp) run rest)
     \<and> filter (\<lambda>i. key i = k) (foldl (binary_insert cmp) run rest)
         = filter (\<lambda>i. key i = k) run @ filter (\<lambda>i. key i = k) rest"
  using srt
proof (induction rest arbitrary: run)
  case Nil
  then show ?case by simp
next
  case (Cons x rest)
  have s: "sorted_wrt (\<lambda>a b. key b \<le> key a) (binary_insert cmp run x)"
    using kc Cons.prems by (rule binary_insert_key(1))
  have f: "filter (\<lambda>i. key i = k) (binary_insert cmp run x)
      = filter (\<lambda>i. key i = k) run @ (if key x = k then [x] else [])"
    using kc Cons.prems by (rule binary_insert_key(2))
  show ?case using Cons.IH [OF s] f by simp
qed

lemma sorted_array_sort:
  assumes "\<And>a b. cmp a b = int (key b) - int (key a)"
  shows "sorted_wrt (\<lambda>a b. key b \<le> key a) (array_sort cmp xs)"
proof -
  obtain run rest where c: "count_and_make_run cmp xs = (run, rest)"
    by (cases "count_and_make_run cmp xs")
  have "sorted_wrt (\<lambda>a b. key b \<le> key a) run"
    using assms c by (rule count_and_make_run_sorted(1))
  then show ?thesis
    using foldl_binary_insert_key [OF assms, where run = run and rest = rest]
    by (simp add: array_sort_def c)
qed

lemma filter_array_sort:
  assumes "\<And>a b. cmp a b = int (key b) - int (key a)"
  shows "filter (\<lambda>i. key i = k) (array_sort cmp xs) = filter (\<lambda>i. key i = k) xs"
proof -
  obtain run rest where c: "count_and_make_run cmp xs = (run, rest)"
    by (cases "count_and_make_run cmp xs")
  have s: "sorted_wrt (\<lambda>a b. key b \<le> key a) run"
    using assms c by (rule count_and_make_run_sorted(1))
  have "filter (\<lambda>i. key i = k) run @ filter (\<lambda>i. key i = k) rest = filter (\<lambda>i. key i = k) xs"
    using assms c by (rule count_and_make_run_sorted(2))
  then show ?thesis
    using foldl_binary_insert_key [OF assms s, where k = k and rest = rest]
    by (simp add: array_sort_def c)
qed

lemma array_sort_Nil [simp]: "array_sort cmp [] = []"
  by (simp add: array_sort_def)

lemmas sort_defs = array_sort_def binary_insert_def binary_search.simps Let_def

lemma prioritized_eq:
  "prioritizedIssues (synthesize agents fs)
     = array_sort (sort_compare compare_issues) (flatten_issues agents fs)"
  by (simp add: synthesize_def Let_def)

text \<open>
  A severity that names no inherited property has the rank the specification gives it,
  and the comparator is then the difference of these ranks.
\<close>

lemma severity_rank_spec:
  "s \<notin> set object_prototype_names \<Longrightarrow> severity_rank s = Some (spec_rank s)"
  by (simp add: severity_rank_def severityOrder_def spec_rank_def)

lemma severity_rank_inherited:
  "s \<in> set object_prototype_names \<Longrightarrow> severity_rank s = None"
  by (auto simp: severity_rank_def severityOrder_def object_prototype_names_def)

lemma sort_compare_spec:
  assumes "severity a \<notin> set object_prototype_names" "severity b \<notin> set object_prototype_names"
  shows "sort_compare compare_issues a b = spec_compare a b"
  using assms
  by (simp add: sort_compare_def compare_issues_def spec_compare_def severity_rank_spec)

lemma severity_ranks:
  "severity_rank ''critical'' = Some 4" "severity_rank ''high'' = Some 3"
  "severity_rank ''medium'' = Some 2" "severity_rank ''low'' = Some 1"
  "severity_rank ''info'' = Some 0" "severity_rank ''unheard-of'' = Some 0"
  by (simp_all add: severity_rank_def severityOrder_def object_prototype_names_def)

text \<open>
  The list the specification asks for is the stable arrangement of the flattened issues
  by descending rank.
\<close>

lemma spec_prioritized_stable:
  "mset (spec_prioritized agents fs) = mset (flatten_issues agents fs)"
  "sorted_wrt (\<lambda>a b. spec_rank (severity b) \<le> spec_rank (severity a))
     (spec_prioritized agents fs)"
  "filter (\<lambda>i. spec_rank (severity i) = k) (spec_prioritized agents fs)
     = filter (\<lambda>i. spec_rank (severity i) = k) (flatten_issues agents fs)"
proof -
  have key: "spec_compare a b = int (spec_rank (severity b)) - int (spec_rank (severity a))"
    for a b
    by (simp add: spec_compare_def)
  show "mset (spec_prioritized agents fs) = mset (flatten_issues agents fs)"
    by (simp add: spec_prioritized_def mset_array_sort)
  show "sorted_wrt (\<lambda>a b. spec_rank (severity b) \<le> spec_rank (severity a))
     (spec_prioritized agents fs)"
    unfolding spec_prioritized_def using key by (rule sorted_array_sort)
  show "filter (\<lambda>i. spec_rank (severity i) = k) (spec_prioritized agents fs)
     = filter (\<lambda>i. spec_rank (severity i) = k) (flatten_issues agents fs)"
    unfolding spec_prioritized_def using key by (rule filter_array_sort)
qed

text \<open>
  As long as no issue carries a severity that names an inherited property, the
  prioritized issues are those of the specification: the flattened issues, rearranged
  so that the ranks never increase along the list, with the issues of each rank in the
  order they have in the flattened list.
\<close>

lemma synthesize_stable_when_ranked:
  assumes "\<forall>i\<in>set (flatten_issues agents fs). severity i \<notin> set object_prototype_names"
  shows "prioritizedIssues (synthesize agents fs) = spec_prioritized agents fs"
    and "mset (prioritizedIssues (synthesize agents fs)) = mset (flatten_issues agents fs)"
    and "sorted_wrt (\<lambda>a b. spec_rank (severity b) \<le> spec_rank (severity a))
           (prioritizedIssues (synthesize agents fs))"
    and "filter (\<lambda>i. spec_rank (severity i) = k) (prioritizedIssues (synthesize agents fs))
           = filter (\<lambda>i. spec_rank (severity i) = k) (flatten_issues agents fs)"
proof -
  have key: "spec_compare a b = int (spec_rank (severity b)) - int (spec_rank (severity a))"
    for a b
    by (simp add: spec_compare_def)
  show eq: "prioritizedIssues (synthesize agents fs) = spec_prioritized agents fs"
    unfolding prioritized_eq spec_prioritized_def
    using assms by (intro array_sort_cong sort_compare_spec) auto
  show "mset (prioritizedIssues (synthesize agents fs)) = mset (flatten_issues agents fs)"
    by (simp add: prioritized_eq mset_array_sort)
  show "sorted_wrt (\<lambda>a b. spec_rank (severity b) \<le> spec_rank (severity a))
           (prioritizedIssues (synthesize agents fs))"
    unfolding eq spec_prioritized_def using key by (rule sorted_array_sort)
  show "filter (\<lambda>i. spec_rank (severity i) = k) (prioritizedIssues (synthesize agents fs))
           = filter (\<lambda>i. spec_rank (severity i) = k) (flatten_issues agents fs)"
    unfolding eq spec_prioritized_def using key by (rule filter_array_sort)
qed

lemma scenario_order:
  "map title (prioritizedIssues (synthesize [worker_A, worker_B] [findings_A, findings_B])) =
     [''A.critical'', ''B.critical'', ''A.high'', ''B.medium'', ''A.low'']"
  by (simp add: prioritized_eq flatten_issues_def findings_A_def findings_B_def
      scenario_findings_def scenario_issue_def tag_issue_def compare_issues_def
      sort_compare_def severity_ranks issue.extend_def sort_defs)

text \<open>
  C3 fails on the code. The lookup \<open>severityOrder[a.severity]\<close> also finds what the table
  inherits from \<open>Object.prototype\<close>: for an issue of severity \<open>constructor\<close> it gives a
  function, which \<open>|| 0\<close> keeps, the difference of the comparator is \<open>NaN\<close>, and the sort
  takes the issue for equal to every other one. Worker A returning this issue followed
  by a critical one gets them back in that order, and with a low issue in front the
  low issue stays before the critical one; the specification ranks the severity
  \<open>constructor\<close> 0 as any unrecognized one, and asks for the critical issue first.
\<close>

theorem synthesize_misplaces_inherited_name:
  "map title (prioritizedIssues (synthesize [worker_A] [findings_odd]))
     = [''A.odd'', ''A.critical'']
   \<and> map title (spec_prioritized [worker_A] [findings_odd]) = [''A.critical'', ''A.odd'']
   \<and> map title (prioritizedIssues (synthesize [worker_A] [findings_odd_between]))
     = [''A.low'', ''A.odd'', ''A.critical'']
   \<and> map title (spec_prioritized [worker_A] [findings_odd_between])
     = [''A.critical'', ''A.low'', ''A.odd'']
   \<and> severityOrder ''constructor'' = Inherited
   \<and> severity_rank ''constructor'' = None
   \<and> spec_rank ''constructor'' = 0
   \<and> compare_issues (tag_issue [worker_A] findings_odd odd_issue)
        (tag_issue [worker_A] findings_odd (scenario_issue ''A.critical'' Critical)) = None
   \<and> compare_issues (tag_issue [worker_A] findings_odd (scenario_issue ''A.critical'' Critical))
        (tag_issue [worker_A] findings_odd odd_issue) = None"
proof -
  have r: "severityOrder ''constructor'' = Inherited" "severity_rank ''constructor'' = None"
      "spec_rank ''constructor'' = 0" "spec_rank ''critical'' = 4" "spec_rank ''low'' = 1"
    by (simp_all add: severity_rank_def severityOrder_def object_prototype_names_def
        spec_rank_def)
  have code: "map title (prioritizedIssues (synthesize [worker_A] [findings_odd]))
      = [''A.odd'', ''A.critical'']"
    "map title (prioritizedIssues (synthesize [worker_A] [findings_odd_between]))
      = [''A.low'', ''A.odd'', ''A.critical'']"
    by (simp_all add: prioritized_eq flatten_issues_def findings_odd_def
        findings_odd_between_def odd_issue_def scenario_findings_def scenario_issue_def
        tag_issue_def compare_issues_def sort_compare_def severity_ranks r issue.extend_def
        sort_defs)
  have spec: "map title (spec_prioritized [worker_A] [findings_odd])
      = [''A.critical'', ''A.odd'']"
    "map title (spec_prioritized [worker_A] [findings_odd_between])
      = [''A.critical'', ''A.low'', ''A.odd'']"
    by (simp_all add: spec_prioritized_def flatten_issues_def findings_odd_def
        findings_odd_between_def odd_issue_def scenario_findings_def scenario_issue_def
        tag_issue_def spec_compare_def r issue.extend_def sort_defs)
  have cmp: "compare_issues (tag_issue [worker_A] findings_odd odd_issue)
        (tag_issue [worker_A] findings_odd (scenario_issue ''A.critical'' Critical)) = None"
    "compare_issues (tag_issue [worker_A] findings_odd (scenario_issue ''A.critical'' Critical))
        (tag_issue [worker_A] findings_odd odd_issue) = None"
    by (simp_all add: compare_issues_def odd_issue_def scenario_issue_def tag_issue_def
        severity_ranks r issue.extend_def)
  show ?thesis using r(1-3) code spec cmp by (intro conjI)
qed

section \<open>Properties of the summary\<close>

lemma totalIssues_eq:
  "totalIssues (summary (synthesize agents fs)) = length (flatten_issues agents fs)"
  by (simp add: synthesize_def Let_def length_array_sort)

lemma agentStats_eq:
  "agentStats (summary (synthesize agents fs)) = map (make_agent_stat agents) fs"
  by (simp add: synthesize_def Let_def)

lemma severity_counts_eq:
  "critical (summary (synthesize agents fs)) = count_severity ''critical'' (prioritizedIssues (synthesize agents fs))"
  "high (summary (synthesize agents fs)) = count_severity ''high'' (prioritizedIssues (synthesize agents fs))"
  "medium (summary (synthesize agents fs)) = count_severity ''medium'' (prioritizedIssues (synthesize agents fs))"
  "low (summary (synthesize agents fs)) = count_severity ''low'' (prioritizedIssues (synthesize agents fs))"
  by (simp_all add: synthesize_def Let_def)

lemma length_flatten_issues:
  "length (flatten_issues agents fs) = sum_list (map (\<lambda>f. length (issues f)) fs)"
  by (simp add: flatten_issues_def length_concat comp_def)

lemma show_nat_nonempty: "show_nat n \<noteq> []"
  by (subst show_nat.simps) simp

lemma show_nat_small:
  "show_nat 0 = ''0''" "show_nat 1 = ''1''" "show_nat 2 = ''2''" "show_nat 5 = ''5''"
  by code_simp+

lemma show_nat_Suc_0: "show_nat (Suc 0) = ''1''"
  using show_nat_small(2) by simp

lemma callAI_without_key: "stored_key svc = Inr None \<Longrightarrow> callAI svc = Rejected key_not_found"
  by (simp add: callAI_def createOpenAIClient_def)

lemma scenario_total:
  "totalIssues (summary (synthesize [worker_A, worker_B] [findings_A, findings_B])) = 5"
  "length (agentStats (summary (synthesize [worker_A, worker_B] [findings_A, findings_B]))) = 2"
  by (simp_all add: totalIssues_eq agentStats_eq length_flatten_issues findings_A_def
      findings_B_def scenario_findings_def)

lemma no_issues_flat:
  "flatten_issues [] [] = []" "flatten_issues [worker_A] [findings_none] = []"
  by (simp_all add: flatten_issues_def findings_none_def scenario_findings_def)

text \<open>
  C4, as the specification states it, makes the fallback text a function of the health
  score and the issue counts. Two reports without any issue, one of no worker and one
  of a single worker, agree in every count and in the health score and get different
  fallback texts.
\<close>

theorem fallback_not_from_counts_alone:
  "totalIssues (summary (synthesize [] []))
     = totalIssues (summary (synthesize [worker_A] [findings_none]))
   \<and> critical (summary (synthesize [] [])) = critical (summary (synthesize [worker_A] [findings_none]))
   \<and> high (summary (synthesize [] [])) = high (summary (synthesize [worker_A] [findings_none]))
   \<and> medium (summary (synthesize [] [])) = medium (summary (synthesize [worker_A] [findings_none]))
   \<and> low (summary (synthesize [] [])) = low (summary (synthesize [worker_A] [findings_none]))
   \<and> health_overall (summary (synthesize [] []))
     = health_overall (summary (synthesize [worker_A] [findings_none]))
   \<and> generateExecutiveSummary (synthesize [] []) (callAI no_credential)
     = Fulfilled ''Multi-agent analysis complete. Found 0 issues across 0 specialized agents.''
   \<and> generateExecutiveSummary (synthesize [worker_A] [findings_none]) (callAI no_credential)
     = Fulfilled ''Multi-agent analysis complete. Found 0 issues across 1 specialized agents.''"
proof -
  have counts: "totalIssues (summary (synthesize [] [])) = 0"
      "totalIssues (summary (synthesize [worker_A] [findings_none])) = 0"
      "critical (summary (synthesize [] [])) = 0"
      "critical (summary (synthesize [worker_A] [findings_none])) = 0"
      "high (summary (synthesize [] [])) = 0"
      "high (summary (synthesize [worker_A] [findings_none])) = 0"
      "medium (summary (synthesize [] [])) = 0"
      "medium (summary (synthesize [worker_A] [findings_none])) = 0"
      "low (summary (synthesize [] [])) = 0"
      "low (summary (synthesize [worker_A] [findings_none])) = 0"
    by (simp_all add: totalIssues_eq severity_counts_eq prioritized_eq no_issues_flat
        count_severity_def)
  have sizes: "length (agentStats (summary (synthesize [] []))) = 0"
      "length (agentStats (summary (synthesize [worker_A] [findings_none]))) = 1"
    by (simp_all add: agentStats_eq)
  have ai: "callAI no_credential = Rejected key_not_found"
    by (simp add: callAI_without_key no_credential_def)
  have "generateExecutiveSummary (synthesize [] []) (callAI no_credential)
      = Fulfilled ''Multi-agent analysis complete. Found 0 issues across 0 specialized agents.''"
    by (simp add: ai generateExecutiveSummary_def fallback_summary_def counts sizes
        show_nat_small show_nat_Suc_0)
  moreover have "generateExecutiveSummary (synthesize [worker_A] [findings_none])
        (callAI no_credential)
      = Fulfilled ''Multi-agent analysis complete. Found 0 issues across 1 specialized agents.''"
    by (simp add: ai generateExecutiveSummary_def fallback_summary_def counts sizes
        show_nat_small show_nat_Suc_0)
  ultimately show ?thesis
    by (simp add: counts health_overall_def)
qed

text \<open>
  C4, amended. \<open>generateExecutiveSummary\<close> never rejects. A missing credential makes
  \<open>callAI\<close> reject, and whenever the call rejects the summary is the fallback text,
  which is not empty, contains the total issue count in decimal, and is determined by
  the total issue count and the number of findings (the length of \<open>agentStats\<close>).
\<close>

theorem generateExecutiveSummary_falls_back:
  "(\<forall>e. generateExecutiveSummary syn ai \<noteq> Rejected e)
   \<and> (stored_key svc = Inr None \<longrightarrow> callAI svc = Rejected key_not_found)
   \<and> (\<forall>e. ai = Rejected e \<longrightarrow> generateExecutiveSummary syn ai = Fulfilled (fallback_summary syn))
   \<and> fallback_summary syn \<noteq> []
   \<and> (\<exists>pre post. fallback_summary syn = pre @ show_nat (totalIssues (summary syn)) @ post)
   \<and> (totalIssues (summary syn') = totalIssues (summary syn)
        \<and> length (agentStats (summary syn')) = length (agentStats (summary syn))
        \<longrightarrow> fallback_summary syn' = fallback_summary syn)"
proof -
  have "\<forall>e. generateExecutiveSummary syn ai \<noteq> Rejected e"
    by (simp add: generateExecutiveSummary_def split: promise.split)
  moreover have "\<forall>e. ai = Rejected e \<longrightarrow>
      generateExecutiveSummary syn ai = Fulfilled (fallback_summary syn)"
    by (simp add: generateExecutiveSummary_def)
  moreover have "fallback_summary syn \<noteq> []"
    by (simp add: fallback_summary_def)
  moreover have "\<exists>pre post. fallback_summary syn = pre @ show_nat (totalIssues (summary syn)) @ post"
    unfolding fallback_summary_def by blast
  moreover have "totalIssues (summary syn') = totalIssues (summary syn)
        \<and> length (agentStats (summary syn')) = length (agentStats (summary syn))
        \<longrightarrow> fallback_summary syn' = fallback_summary syn"
    by (simp add: fallback_summary_def)
  ultimately show ?thesis
    using callAI_without_key by blast
qed

theorem generateExecutiveSummary_falls_back_witness:
  "callAI no_credential = Rejected key_not_found
   \<and> generateExecutiveSummary (synthesize [worker_A, worker_B] [findings_A, findings_B])
        (callAI no_credential)
      = Fulfilled ''Multi-agent analysis complete. Found 5 issues across 2 specialized agents.''"
proof -
  let ?S = "synthesize [worker_A, worker_B] [findings_A, findings_B]"
  note t = generateExecutiveSummary_falls_back [of ?S "callAI no_credential" no_credential ?S]
  have k: "stored_key no_credential = Inr None"
    by (simp add: no_credential_def)
  have r: "callAI no_credential = Rejected key_not_found"
    using t k by blast
  have "generateExecutiveSummary ?S (callAI no_credential) = Fulfilled (fallback_summary ?S)"
    using t r by blast
  moreover have "fallback_summary ?S
      = ''Multi-agent analysis complete. Found 5 issues across 2 specialized agents.''"
    by (simp add: fallback_summary_def scenario_total show_nat_small)
  ultimately show ?thesis using r by simp
qed

section \<open>Properties of the bus\<close>

lemma calls_resolve [simp]: "calls (resolve p v w) = calls w"
  by (simp add: resolve_def)
lemma console_resolve [simp]: "console (resolve p v w) = console w"
  by (simp add: resolve_def)
lemma subscribers_resolve [simp]: "subscribers (resolve p v w) = subscribers w"
  by (simp add: resolve_def)
lemma clock_resolve [simp]: "clock_reads (resolve p v w) = clock_reads w"
  by (simp add: resolve_def)
lemma length_answers_resolve [simp]: "length (answers (resolve p v w)) = length (answers w)"
  by (simp add: resolve_def)
lemma unsubscribe_simps [simp]:
  "calls (unsubscribe cb w) = calls w" "console (unsubscribe cb w) = console w"
  "answers (unsubscribe cb w) = answers w" "clock_reads (unsubscribe cb w) = clock_reads w"
  "subscribers (unsubscribe cb w) = filter (\<lambda>sub. sub \<noteq> cb) (subscribers w)"
  by (simp_all add: unsubscribe_def)

lemma deliver_console [simp]: "console (snd (deliver E m subs w)) = console w"
  by (induction E m subs w rule: deliver.induct) (auto simp: Let_def split: option.splits)

lemma deliver_clock [simp]: "clock_reads (snd (deliver E m subs w)) = clock_reads w"
  by (induction E m subs w rule: deliver.induct) (auto simp: Let_def split: option.splits)

lemma deliver_not_pending: "fst (deliver E m subs w) \<noteq> Pending"
  by (induction E m subs w rule: deliver.induct) (auto simp: Let_def split: option.splits)

lemma deliver_all:
  "\<forall>k\<in>set (listeners subs). \<forall>w'. raises E k w' m = None \<Longrightarrow>
   fst (deliver E m subs w) = Fulfilled ()
   \<and> calls (snd (deliver E m subs w)) = calls w @ map (\<lambda>k. (k, m)) (listeners subs)"
  by (induction E m subs w rule: deliver.induct) (auto simp: Let_def)




lemma answers_resolve_other: "q \<noteq> p \<Longrightarrow> answers (resolve q v w) ! p = answers w ! p"
  by (simp add: resolve_def)

lemma answers_resolve_not_rejected:
  "answers w ! p \<noteq> Rejected e \<Longrightarrow> answers (resolve q v w) ! p \<noteq> Rejected e"
  by (cases "q = p") (auto simp: resolve_def)

lemma deliver_length_answers [simp]:
  "length (answers (snd (deliver E m subs w))) = length (answers w)"
  by (induction E m subs w rule: deliver.induct) (auto simp: Let_def split: option.splits)

lemma deliver_subscribers_subset:
  "set (subscribers (snd (deliver E m subs w))) \<subseteq> set (subscribers w)"
  by (induction E m subs w rule: deliver.induct) (auto simp: Let_def split: option.splits)

lemma deliver_keeps_answer:
  "\<not> answers_to cid m \<Longrightarrow> \<forall>c. Waiter c p \<in> set subs \<longrightarrow> c = cid \<Longrightarrow>
   answers (snd (deliver E m subs w)) ! p = answers w ! p"
proof (induction E m subs w rule: deliver.induct)
  case (3 E m c q subs w)
  show ?case
  proof (cases "correlationId m = c \<and> msg_type m = RESPONSE")
    case True
    then have "q \<noteq> p" using 3 by (auto simp: answers_to_def)
    then show ?thesis using True 3 by (simp add: answers_resolve_other)
  next
    case False
    then show ?thesis using 3 by auto
  qed
qed (auto simp: Let_def split: option.splits)

lemma deliver_never_rejects_answer:
  "answers w ! p \<noteq> Rejected e \<Longrightarrow> answers (snd (deliver E m subs w)) ! p \<noteq> Rejected e"
  by (induction E m subs w rule: deliver.induct)
     (auto simp: Let_def answers_resolve_not_rejected split: option.splits)

lemma wf_world_iff: "wf_world w \<longleftrightarrow> (\<forall>c q. Waiter c q \<in> set (subscribers w) \<longrightarrow> q < length (answers w))"
  by (auto simp: wf_world_def list_all_iff split: callback.splits)

lemma publish_waits:
  assumes "waits cid p w" "\<not> answers_to cid m"
  shows "waits cid p (snd (publish E m w))"
proof -
  let ?w0 = "w\<lparr>console := console w @ [m]\<rparr>"
  have sub: "set (subscribers (snd (publish E m w))) \<subseteq> set (subscribers w)"
    using deliver_subscribers_subset [of E m "subscribers w" ?w0] by (simp add: publish_def)
  have len: "length (answers (snd (publish E m w))) = length (answers w)"
    by (simp add: publish_def)
  have "answers (snd (publish E m w)) ! p = answers w ! p"
    using deliver_keeps_answer [of cid m p "subscribers w" E ?w0] assms
    by (simp add: publish_def waits_def)
  then show ?thesis
    using assms(1) sub len unfolding waits_def wf_world_iff by (metis subsetD)
qed

lemma date_now_simps [simp]:
  "subscribers (snd (date_now E w)) = subscribers w" "answers (snd (date_now E w)) = answers w"
  "console (snd (date_now E w)) = console w" "calls (snd (date_now E w)) = calls w"
  "fst (date_now E w) = clock E (clock_reads w)"
  "clock_reads (snd (date_now E w)) = Suc (clock_reads w)"
  by (simp_all add: date_now_def)

lemma waits_date_now: "waits cid p w \<Longrightarrow> waits cid p (snd (date_now E w))"
  by (simp add: waits_def wf_world_iff)

lemma waits_new_promise:
  assumes "waits cid p w"
  shows "waits cid p (subscribe (Waiter c (length (answers w))) (w\<lparr>answers := answers w @ [Pending]\<rparr>))"
proof -
  have "p < length (answers w)" using assms by (simp add: waits_def)
  moreover have "\<forall>c q. Waiter c q \<in> set (subscribers w) \<longrightarrow> q < Suc (length (answers w))"
    using assms unfolding waits_def wf_world_iff by (meson less_SucI)
  ultimately show ?thesis
    using assms by (auto simp: subscribe_def waits_def wf_world_iff nth_append)
qed

lemma ask_waits:
  assumes "waits cid p w"
  shows "waits cid p (snd (ask E aid target q w))"
proof -
  obtain t w1 where n1: "date_now E w = (t, w1)" by (cases "date_now E w")
  obtain ts w2 where n2: "date_now E w1 = (ts, w2)" by (cases "date_now E w1")
  let ?m = "\<lparr> msg_agentId = aid, msg_type = QUESTION, payload = QuestionPayload q target,
               timestamp = ts, correlationId = question_cid aid target t \<rparr>"
  have w2: "waits cid p w2"
    using waits_date_now [OF waits_date_now [OF assms, of E], of E] n1 n2 by simp
  have "\<not> answers_to cid ?m" by (simp add: answers_to_def)
  then have w3: "waits cid p (snd (publish E ?m w2))"
    using publish_waits [OF w2] by blast
  obtain r w3 where pb: "publish E ?m w2 = (r, w3)" by (cases "publish E ?m w2")
  have w3': "waits cid p w3" using w3 pb by simp
  show ?thesis
  proof (cases r)
    case (Rejected e)
    then show ?thesis using w3' by (simp add: ask_def n1 n2 pb)
  next
    case Pending
    then show ?thesis using waits_new_promise [OF w3']
      by (simp add: ask_def n1 n2 pb Let_def)
  next
    case (Fulfilled u)
    then show ?thesis using waits_new_promise [OF w3']
      by (simp add: ask_def n1 n2 pb Let_def)
  qed
qed

lemma apply_op_waits:
  assumes "waits cid p w" "\<forall>m\<in>set (published_by op). \<not> answers_to cid m"
  shows "waits cid p (apply_op E op w)"
proof (cases op)
  case (Publish m)
  then show ?thesis using assms publish_waits by simp
next
  case (Ask a t q)
  then show ?thesis using assms ask_waits by simp
qed (use assms in \<open>auto simp: waits_def wf_world_iff subscribe_def unsubscribe_def clear_def\<close>)

lemma run_ops_waits:
  "waits cid p w \<Longrightarrow> \<forall>op\<in>set ops. \<forall>m\<in>set (published_by op). \<not> answers_to cid m \<Longrightarrow>
   waits cid p (run_ops E ops w)"
  by (induction ops arbitrary: w) (auto simp: apply_op_waits)


lemma publish_unrejected: "unrejected p w \<Longrightarrow> unrejected p (snd (publish E m w))"
  using deliver_never_rejects_answer [of "w\<lparr>console := console w @ [m]\<rparr>" p _ E m "subscribers w"]
  by (simp add: unrejected_def publish_def)

lemma ask_unrejected:
  assumes "unrejected p w"
  shows "unrejected p (snd (ask E aid target q w))"
proof -
  obtain t w1 where n1: "date_now E w = (t, w1)" by (cases "date_now E w")
  obtain ts w2 where n2: "date_now E w1 = (ts, w2)" by (cases "date_now E w1")
  let ?m = "\<lparr> msg_agentId = aid, msg_type = QUESTION, payload = QuestionPayload q target,
               timestamp = ts, correlationId = question_cid aid target t \<rparr>"
  have "unrejected p w2"
    using assms n1 n2 by (auto simp: unrejected_def date_now_def)
  then have u3: "unrejected p (snd (publish E ?m w2))"
    by (rule publish_unrejected)
  obtain r w3 where pb: "publish E ?m w2 = (r, w3)" by (cases "publish E ?m w2")
  have "unrejected p w3" using u3 pb by simp
  then show ?thesis
    by (cases r) (auto simp: ask_def n1 n2 pb Let_def subscribe_def unrejected_def nth_append)
qed

lemma apply_op_unrejected: "unrejected p w \<Longrightarrow> unrejected p (apply_op E op w)"
proof (cases op)
  case (Publish m)
  assume "unrejected p w"
  then show ?thesis using Publish publish_unrejected by simp
next
  case (Ask a t q)
  assume "unrejected p w"
  then show ?thesis using Ask ask_unrejected by simp
qed (auto simp: unrejected_def subscribe_def unsubscribe_def clear_def)

lemma run_ops_unrejected: "unrejected p w \<Longrightarrow> unrejected p (run_ops E ops w)"
  by (induction ops arbitrary: w) (auto simp: apply_op_unrejected)

lemma publish_wf: "wf_world w \<Longrightarrow> wf_world (snd (publish E m w))"
proof -
  assume wf: "wf_world w"
  let ?w0 = "w\<lparr>console := console w @ [m]\<rparr>"
  have "set (subscribers (snd (publish E m w))) \<subseteq> set (subscribers w)"
    using deliver_subscribers_subset [of E m "subscribers w" ?w0] by (simp add: publish_def)
  moreover have "length (answers (snd (publish E m w))) = length (answers w)"
    by (simp add: publish_def)
  ultimately show ?thesis
    using wf unfolding wf_world_iff by (metis subsetD)
qed

lemma ask_result:
  assumes "wf_world w" "ask E aid target q w = (Fulfilled p, w1)"
  shows "waits (question_cid aid target (clock E (clock_reads w))) p w1"
proof -
  obtain t w' where n1: "date_now E w = (t, w')" by (cases "date_now E w")
  obtain ts w2 where n2: "date_now E w' = (ts, w2)" by (cases "date_now E w'")
  have t: "t = clock E (clock_reads w)" using n1 by (simp add: date_now_def)
  let ?m = "\<lparr> msg_agentId = aid, msg_type = QUESTION, payload = QuestionPayload q target,
               timestamp = ts, correlationId = question_cid aid target t \<rparr>"
  have "wf_world w2" using assms(1) n1 n2 by (auto simp: wf_world_iff date_now_def)
  then have wf3: "wf_world (snd (publish E ?m w2))" by (rule publish_wf)
  obtain r w3 where pb: "publish E ?m w2 = (r, w3)" by (cases "publish E ?m w2")
  have wf3': "wf_world w3" using wf3 pb by simp
  have nr: "\<forall>e. r \<noteq> Rejected e"
    using assms(2) by (auto simp: ask_def n1 n2 pb Let_def split: promise.splits)
  then have p: "p = length (answers w3)"
    and w1: "w1 = subscribe (Waiter (question_cid aid target t) p) (w3\<lparr>answers := answers w3 @ [Pending]\<rparr>)"
    using assms(2) by (cases r; simp add: ask_def n1 n2 pb Let_def)+
  have "\<forall>c. Waiter c p \<notin> set (subscribers w3)"
    using wf3' p unfolding wf_world_iff by blast
  moreover have "\<forall>c q. Waiter c q \<in> set (subscribers w3) \<longrightarrow> q < Suc (length (answers w3))"
    using wf3' unfolding wf_world_iff by (meson less_SucI)
  ultimately show ?thesis
    unfolding t [symmetric] w1 waits_def wf_world_iff
    by (auto simp: subscribe_def p nth_append)
qed



lemma listening_simps:
  "subscribers (listening ks) = map Listener ks" "calls (listening ks) = []"
  "answers (listening ks) = []" "clock_reads (listening ks) = 0" "console (listening ks) = []"
  by (simp_all add: listening_def empty_world_def)


text \<open>
  C9, as the specification states it, fails in one respect: \<open>ask\<close> does have a path on
  which its promise is rejected. When listener 0 throws while the QUESTION is being
  published, the promise is rejected at once, and no RESPONSE has been published.
\<close>

theorem ask_rejects_when_question_raises:
  "fst (ask faulty_env ''a'' ''b'' ''why'' (listening [0])) = Rejected (ErrorObj ''boom'')
   \<and> map msg_type (console (snd (ask faulty_env ''a'' ''b'' ''why'' (listening [0])))) = [QUESTION]"
  by (simp add: ask_def date_now_def publish_def listening_def empty_world_def faulty_env_def Let_def)

text \<open>
  C9, amended. When publishing the QUESTION does not throw, \<open>ask\<close> returns a promise
  that is pending, that stays pending through every sequence of later calls on the bus
  in which no RESPONSE with the correlation id of the question is published, and that
  is never rejected. The only path on which the promise of \<open>ask\<close> is rejected is the
  one on which a subscriber throws during the publication of the QUESTION.
\<close>

theorem ask_settles_only_by_response:
  assumes "wf_world w"
      and "ask E aid target question w = (Fulfilled p, w1)"
  shows "answers w1 ! p = Pending
    \<and> (\<forall>ops. (\<forall>op\<in>set ops. \<forall>m\<in>set (published_by op).
                 \<not> answers_to (question_cid aid target (clock E (clock_reads w))) m)
           \<longrightarrow> answers (run_ops E ops w1) ! p = Pending)
    \<and> (\<forall>ops e. answers (run_ops E ops w1) ! p \<noteq> Rejected e)"
proof -
  let ?cid = "question_cid aid target (clock E (clock_reads w))"
  have w: "waits ?cid p w1" using ask_result [OF assms] .
  then have "unrejected p w1" by (simp add: waits_def unrejected_def)
  then have "\<forall>ops e. answers (run_ops E ops w1) ! p \<noteq> Rejected e"
    using run_ops_unrejected unfolding unrejected_def by blast
  moreover have "\<forall>ops. (\<forall>op\<in>set ops. \<forall>m\<in>set (published_by op). \<not> answers_to ?cid m)
           \<longrightarrow> answers (run_ops E ops w1) ! p = Pending"
    using run_ops_waits [OF w] unfolding waits_def by blast
  ultimately show ?thesis using w by (simp add: waits_def)
qed


lemma ask_quiet:
  "ask quiet_env ''a'' ''b'' ''why'' (listening [1]) =
     (Fulfilled 0,
      \<lparr> subscribers = [Listener 1, Waiter (question_cid ''a'' ''b'' 1000) 0],
        console = [\<lparr> msg_agentId = ''a'', msg_type = QUESTION,
                     payload = QuestionPayload ''why'' ''b'', timestamp = 1000,
                     correlationId = question_cid ''a'' ''b'' 1000 \<rparr>],
        calls = [(1, \<lparr> msg_agentId = ''a'', msg_type = QUESTION,
                     payload = QuestionPayload ''why'' ''b'', timestamp = 1000,
                     correlationId = question_cid ''a'' ''b'' 1000 \<rparr>)],
        answers = [Pending], clock_reads = 2 \<rparr>)"
  by (simp add: ask_def date_now_def publish_def listening_def empty_world_def quiet_env_def Let_def subscribe_def)

theorem ask_settles_only_by_response_witness:
  "(\<exists>w1. ask quiet_env ''a'' ''b'' ''why'' (listening [1]) = (Fulfilled 0, w1)
      \<and> answers (run_ops quiet_env
           [Publish progress_message, Ask ''a'' ''b'' ''again'', Unsubscribe 1, Subscribe 2] w1) ! 0 = Pending
      \<and> answers (run_ops quiet_env
           [Publish (response_message (question_cid ''a'' ''b'' 1000) ''because'')] w1) ! 0
          = Fulfilled (Some ''because''))"
proof -
  obtain w1 where a: "ask quiet_env ''a'' ''b'' ''why'' (listening [1]) = (Fulfilled 0, w1)"
    and w1: "w1 = \<lparr> subscribers = [Listener 1, Waiter (question_cid ''a'' ''b'' 1000) 0],
        console = [\<lparr> msg_agentId = ''a'', msg_type = QUESTION,
                     payload = QuestionPayload ''why'' ''b'', timestamp = 1000,
                     correlationId = question_cid ''a'' ''b'' 1000 \<rparr>],
        calls = [(1, \<lparr> msg_agentId = ''a'', msg_type = QUESTION,
                     payload = QuestionPayload ''why'' ''b'', timestamp = 1000,
                     correlationId = question_cid ''a'' ''b'' 1000 \<rparr>)],
        answers = [Pending], clock_reads = 2 \<rparr>"
    using ask_quiet by blast
  have wf: "wf_world (listening [1])"
    by (simp add: wf_world_def listening_def empty_world_def)
  note t = ask_settles_only_by_response [OF wf a]
  have c: "clock quiet_env (clock_reads (listening [1])) = 1000"
    by (simp add: quiet_env_def)
  have "\<forall>op\<in>set [Publish progress_message, Ask ''a'' ''b'' ''again'', Unsubscribe 1, Subscribe 2].
          \<forall>m\<in>set (published_by op). \<not> answers_to (question_cid ''a'' ''b'' 1000) m"
    by (simp add: answers_to_def progress_message_def)
  then have "answers (run_ops quiet_env
           [Publish progress_message, Ask ''a'' ''b'' ''again'', Unsubscribe 1, Subscribe 2] w1) ! 0 = Pending"
    using t [unfolded c] by blast
  moreover have "answers (run_ops quiet_env
           [Publish (response_message (question_cid ''a'' ''b'' 1000) ''because'')] w1) ! 0
          = Fulfilled (Some ''because'')"
    by (simp add: w1 publish_def response_message_def quiet_env_def Let_def resolve_def unsubscribe_def)
  ultimately show ?thesis using a by blast
qed

section \<open>Properties of publishing\<close>

lemma publish_console: "console (snd (publish E m w)) = console w @ [m]"
  by (simp add: publish_def)

lemma publish_not_pending: "fst (publish E m w) \<noteq> Pending"
  by (simp add: publish_def deliver_not_pending)

lemma publish_quiet: "never_raises E \<Longrightarrow> fst (publish E m w) = Fulfilled ()"
  using deliver_all [of "subscribers w" E m "w\<lparr>console := console w @ [m]\<rparr>"]
  by (simp add: publish_def never_raises_def)

lemma updateProgress_console:
  "console (snd (updateProgress E aid label p w)) = console w @
     [\<lparr> msg_agentId = aid, msg_type = PROGRESS_UPDATE, payload = ProgressPayload label p,
        timestamp = clock E (clock_reads w),
        correlationId = message_cid aid (clock E (Suc (clock_reads w))) \<rparr>]"
  by (simp add: updateProgress_def date_now_def publish_console)

lemma reportFindings_console:
  "console (snd (reportFindings E aid f w)) = console w @
     [\<lparr> msg_agentId = aid, msg_type = FINDINGS, payload = FindingsPayload f,
        timestamp = clock E (clock_reads w),
        correlationId = message_cid aid (clock E (Suc (clock_reads w))) \<rparr>]"
  by (simp add: reportFindings_def date_now_def publish_console)

lemma progress_of_updateProgress:
  "progress_of aid (snd (updateProgress E aid label p w)) = progress_of aid w @ [p]"
  by (simp add: progress_of_def updateProgress_console)

lemma progress_of_reportFindings:
  "progress_of aid (snd (reportFindings E a f w)) = progress_of aid w"
  by (simp add: progress_of_def reportFindings_console)

lemma progress_of_date_now: "progress_of aid (snd (date_now E w)) = progress_of aid w"
  by (simp add: progress_of_def)

lemma updateProgress_not_pending: "fst (updateProgress E aid label p w) \<noteq> Pending"
  by (simp add: updateProgress_def date_now_def publish_not_pending)

lemma reportFindings_not_pending: "fst (reportFindings E aid f w) \<noteq> Pending"
  by (simp add: reportFindings_def date_now_def publish_not_pending)

lemma updateProgress_quiet: "never_raises E \<Longrightarrow> fst (updateProgress E aid label p w) = Fulfilled ()"
  by (simp add: updateProgress_def date_now_def publish_quiet)

lemma reportFindings_quiet: "never_raises E \<Longrightarrow> fst (reportFindings E aid f w) = Fulfilled ()"
  by (simp add: reportFindings_def date_now_def publish_quiet)

section \<open>Progress published by a piece of a worker\<close>

lemma emitsI:
  assumes "\<And>s r s'. act s = (r, s') \<Longrightarrow>
     \<exists>ps. progress_of aid (snd s') = progress_of aid (snd s) @ ps
            \<and> prefix ps sched \<and> ((\<exists>x. r = Fulfilled x) \<longrightarrow> ps = sched)"
  shows "emits aid sched act"
  unfolding emits_def
proof
  fix s
  show "\<exists>ps. progress_of aid (snd (snd (act s))) = progress_of aid (snd s) @ ps
            \<and> prefix ps sched \<and> ((\<exists>x. fst (act s) = Fulfilled x) \<longrightarrow> ps = sched)"
    using assms [of s "fst (act s)" "snd (act s)"] by simp
qed

lemma emitsD:
  assumes "emits aid sched act" "act s = (r, s')"
  shows "\<exists>ps. progress_of aid (snd s') = progress_of aid (snd s) @ ps
     \<and> prefix ps sched \<and> ((\<exists>x. r = Fulfilled x) \<longrightarrow> ps = sched)"
  using assms unfolding emits_def by (metis fst_conv snd_conv)

lemma emits_then_do:
  assumes "emits aid s1 act" "\<And>x. emits aid s2 (rest x)"
  shows "emits aid (s1 @ s2) (then_do act rest)"
proof (rule emitsI)
  fix s r s'
  assume run: "then_do act rest s = (r, s')"
  obtain r1 t where a: "act s = (r1, t)" by (cases "act s")
  obtain ps where ps: "progress_of aid (snd t) = progress_of aid (snd s) @ ps"
      "prefix ps s1" "(\<exists>x. r1 = Fulfilled x) \<longrightarrow> ps = s1"
    using emitsD [OF assms(1) a] by blast
  show "\<exists>ps. progress_of aid (snd s') = progress_of aid (snd s) @ ps
            \<and> prefix ps (s1 @ s2) \<and> ((\<exists>x. r = Fulfilled x) \<longrightarrow> ps = s1 @ s2)"
  proof (cases r1)
    case (Fulfilled x)
    then have b: "rest x t = (r, s')" using run a by (simp add: then_do_def)
    obtain qs where qs: "progress_of aid (snd s') = progress_of aid (snd t) @ qs"
      "prefix qs s2" "(\<exists>y. r = Fulfilled y) \<longrightarrow> qs = s2"
      using emitsD [OF assms(2) b] by blast
    have "ps = s1" using ps Fulfilled by blast
    then show ?thesis
      using qs ps by (intro exI [of _ "s1 @ qs"]) auto
  next
    case Pending
    then have "r = Pending" "s' = t" using run a by (simp_all add: then_do_def)
    then show ?thesis using ps by (intro exI [of _ ps]) (simp add: prefix_prefix)
  next
    case (Rejected e)
    then have "r = Rejected e" "s' = t" using run a by (simp_all add: then_do_def)
    then show ?thesis using ps by (intro exI [of _ ps]) (simp add: prefix_prefix)
  qed
qed

lemma emits_progress: "emits aid [p] (on_bus (updateProgress E aid label p))"
proof (rule emitsI)
  fix s r s'
  assume "on_bus (updateProgress E aid label p) s = (r, s')"
  then have "snd s' = snd (updateProgress E aid label p (snd s))"
    by (auto simp: on_bus_def split: prod.splits)
  then show "\<exists>ps. progress_of aid (snd s') = progress_of aid (snd s) @ ps
            \<and> prefix ps [p] \<and> ((\<exists>x. r = Fulfilled x) \<longrightarrow> ps = [p])"
    by (simp add: progress_of_updateProgress)
qed

lemma emits_call: "emits aid [] (call r)"
  by (rule emitsI) (auto simp: call_def split: sum.splits)

lemma emits_update: "emits aid [] (update_findings g)"
  by (rule emitsI) (auto simp: update_findings_def)

lemma emits_await: "emits aid [] (await pr)"
  by (rule emitsI) (auto simp: await_def)

lemma emits_get: "emits aid [] get_findings"
  by (rule emitsI) (auto simp: get_findings_def)

lemma emits_clock: "emits aid [] (read_clock E)"
  by (rule emitsI) (auto simp: read_clock_def date_now_def progress_of_def)

lemma emits_report: "emits aid [] (on_bus (reportFindings E a f))"
proof (rule emitsI)
  fix s r s'
  assume "on_bus (reportFindings E a f) s = (r, s')"
  then have "snd s' = snd (reportFindings E a f (snd s))"
    by (auto simp: on_bus_def split: prod.splits)
  then show "\<exists>ps. progress_of aid (snd s') = progress_of aid (snd s) @ ps
            \<and> prefix ps [] \<and> ((\<exists>x. r = Fulfilled x) \<longrightarrow> ps = [])"
    by (simp add: progress_of_reportFindings)
qed

lemma emits_silent_then:
  "emits aid [] act \<Longrightarrow> (\<And>x. emits aid sched (rest x)) \<Longrightarrow> emits aid sched (then_do act rest)"
  using emits_then_do [of aid "[]" act sched rest] by simp

lemma emits_progress_then:
  "(\<And>x. emits aid sched (rest x)) \<Longrightarrow>
   emits aid (p # sched) (then_do (on_bus (updateProgress E aid label p)) rest)"
  using emits_then_do [of aid "[p]" _ sched rest] emits_progress by fastforce

lemma emits_call_then:
  "(\<And>x. emits aid sched (rest x)) \<Longrightarrow> emits aid sched (then_do (call r) rest)"
  by (rule emits_silent_then [OF emits_call])

lemma emits_update_then:
  "(\<And>x. emits aid sched (rest x)) \<Longrightarrow> emits aid sched (then_do (update_findings g) rest)"
  by (rule emits_silent_then [OF emits_update])

lemma emits_case_prod:
  "(\<And>a b. emits aid sched (f a b)) \<Longrightarrow> emits aid sched (case x of (a, b) \<Rightarrow> f a b)"
  by (cases x) simp

text \<open>A \<open>try\<close> block whose two branches publish no progress publishes none.\<close>

lemma emits_try_silent:
  assumes "emits aid [] act" "\<And>e. emits aid [] (handler e)"
  shows "emits aid [] (try_catch act handler)"
proof (rule emitsI)
  fix s r s'
  assume run: "try_catch act handler s = (r, s')"
  obtain r1 t where a: "act s = (r1, t)" by (cases "act s")
  obtain ps where ps: "progress_of aid (snd t) = progress_of aid (snd s) @ ps" "prefix ps []"
    using emitsD [OF assms(1) a] by blast
  show "\<exists>ps. progress_of aid (snd s') = progress_of aid (snd s) @ ps
            \<and> prefix ps [] \<and> ((\<exists>x. r = Fulfilled x) \<longrightarrow> ps = [])"
  proof (cases r1)
    case (Rejected e)
    then have h: "handler e t = (r, s')" using run a by (simp add: try_catch_def)
    obtain qs where "progress_of aid (snd s') = progress_of aid (snd t) @ qs" "prefix qs []"
      using emitsD [OF assms(2) h] by blast
    then show ?thesis using ps by simp
  next
    case Pending
    then have "s' = t" using run a by (simp add: try_catch_def)
    then show ?thesis using ps by simp
  next
    case (Fulfilled x)
    then have "s' = t" using run a by (simp add: try_catch_def)
    then show ?thesis using ps by simp
  qed
qed

lemma emits_insights: "emits aid [] (accessibility_insights ai a b c d)"
  unfolding accessibility_insights_def
  by (intro emits_try_silent emits_silent_then emits_await emits_update)

lemma emits_discovery_try:
  "emits discovery_id [30, 60, 80, 100] (discovery_try E page)"
  unfolding discovery_try_def
  by (intro emits_call_then emits_progress_then emits_update_then emits_case_prod emits_progress)

lemma emits_accessibility_try:
  "emits accessibility_id [15, 30, 45, 60, 75, 90, 100] (accessibility_try E page ai)"
  unfolding accessibility_try_def
  by (intro emits_call_then emits_progress_then emits_update_then emits_case_prod emits_progress
      emits_silent_then [OF emits_insights])


section \<open>Reaching the end of a schedule\<close>

lemma completesD:
  "completes E aid sched act \<Longrightarrow> never_raises E \<Longrightarrow>
   progress_of aid (snd (snd (act s))) = progress_of aid (snd s) @ sched \<Longrightarrow>
   \<exists>x. fst (act s) = Fulfilled x"
  unfolding completes_def by blast

lemma keepsD:
  "keeps_confidence cs act \<Longrightarrow> confidence (fst s) \<in> cs \<Longrightarrow>
   confidence (fst (snd (act s))) \<in> cs"
  unfolding keeps_confidence_def by blast

lemma completes_then_do:
  assumes "emits aid s1 act" "\<And>x. completes E aid s2 (rest x)" "s2 \<noteq> []"
  shows "completes E aid (s1 @ s2) (then_do act rest)"
  unfolding completes_def
proof (intro allI impI)
  fix s
  assume h: "never_raises E \<and> progress_of aid (snd (snd (then_do act rest s)))
      = progress_of aid (snd s) @ s1 @ s2"
  obtain r1 t where a: "act s = (r1, t)" by (cases "act s")
  obtain ps where ps: "progress_of aid (snd t) = progress_of aid (snd s) @ ps"
      "prefix ps s1" "(\<exists>x. r1 = Fulfilled x) \<longrightarrow> ps = s1"
    using emitsD [OF assms(1) a] by blast
  show "\<exists>y. fst (then_do act rest s) = Fulfilled y"
  proof (cases r1)
    case (Fulfilled x)
    then have run: "then_do act rest s = rest x t" using a by (simp add: then_do_def)
    have "ps = s1" using ps Fulfilled by blast
    then have "progress_of aid (snd (snd (rest x t))) = progress_of aid (snd t) @ s2"
      using h ps run by simp
    then have "\<exists>y. fst (rest x t) = Fulfilled y"
      using completesD [OF assms(2) [of x], of t] h by blast
    then show ?thesis using run by simp
  next
    case Pending
    then have "snd (then_do act rest s) = t" using a by (simp add: then_do_def)
    then have "ps = s1 @ s2" using h ps by simp
    then have "length (s1 @ s2) \<le> length s1" using ps(2) prefix_length_le by blast
    then show ?thesis using assms(3) by simp
  next
    case (Rejected e)
    then have "snd (then_do act rest s) = t" using a by (simp add: then_do_def)
    then have "ps = s1 @ s2" using h ps by simp
    then have "length (s1 @ s2) \<le> length s1" using ps(2) prefix_length_le by blast
    then show ?thesis using assms(3) by simp
  qed
qed

lemma completes_progress: "completes E aid [p] (on_bus (updateProgress E aid label p))"
  unfolding completes_def
proof (intro allI impI)
  fix s :: "findings \<times> world"
  assume "never_raises E \<and> progress_of aid (snd (snd (on_bus (updateProgress E aid label p) s)))
      = progress_of aid (snd s) @ [p]"
  then have "fst (updateProgress E aid label p (snd s)) = Fulfilled ()"
    by (simp add: updateProgress_quiet)
  then show "\<exists>x. fst (on_bus (updateProgress E aid label p) s) = Fulfilled x"
    by (auto simp: on_bus_def split: prod.splits)
qed

lemma completes_silent_then:
  "emits aid [] act \<Longrightarrow> (\<And>x. completes E aid sched (rest x)) \<Longrightarrow> sched \<noteq> [] \<Longrightarrow>
   completes E aid sched (then_do act rest)"
  using completes_then_do [of aid "[]" act E sched rest] by simp

lemma completes_progress_then:
  "(\<And>x. completes E aid sched (rest x)) \<Longrightarrow> sched \<noteq> [] \<Longrightarrow>
   completes E aid (p # sched) (then_do (on_bus (updateProgress E aid label p)) rest)"
  using completes_then_do [of aid "[p]" _ E sched rest] emits_progress by fastforce

lemma completes_call_then:
  "(\<And>x. completes E aid sched (rest x)) \<Longrightarrow> sched \<noteq> [] \<Longrightarrow>
   completes E aid sched (then_do (call r) rest)"
  by (rule completes_silent_then [OF emits_call])

lemma completes_update_then:
  "(\<And>x. completes E aid sched (rest x)) \<Longrightarrow> sched \<noteq> [] \<Longrightarrow>
   completes E aid sched (then_do (update_findings g) rest)"
  by (rule completes_silent_then [OF emits_update])

lemma completes_case_prod:
  "(\<And>a b. completes E aid sched (f a b)) \<Longrightarrow> completes E aid sched (case x of (a, b) \<Rightarrow> f a b)"
  by (cases x) simp

lemma completes_discovery_try:
  "completes E discovery_id [30, 60, 80, 100] (discovery_try E page)"
  unfolding discovery_try_def
  by (intro completes_call_then completes_progress_then completes_update_then
      completes_case_prod completes_progress) simp_all

lemma completes_accessibility_try:
  "completes E accessibility_id [15, 30, 45, 60, 75, 90, 100] (accessibility_try E page ai)"
  unfolding accessibility_try_def
  by (intro completes_call_then completes_progress_then completes_update_then
      completes_case_prod completes_progress completes_silent_then [OF emits_insights]) simp_all

section \<open>Confidence along a run\<close>

lemma keeps_then_do:
  assumes "keeps_confidence cs act" "\<And>x. keeps_confidence cs (rest x)"
  shows "keeps_confidence cs (then_do act rest)"
  unfolding keeps_confidence_def
proof (intro allI impI)
  fix s :: "findings \<times> world"
  assume c: "confidence (fst s) \<in> cs"
  obtain r1 t where a: "act s = (r1, t)" by (cases "act s")
  have t: "confidence (fst t) \<in> cs"
    using keepsD [OF assms(1) c] a by simp
  show "confidence (fst (snd (then_do act rest s))) \<in> cs"
  proof (cases r1)
    case (Fulfilled x)
    then show ?thesis
      using keepsD [OF assms(2) [of x] t] a by (simp add: then_do_def)
  qed (use t a in \<open>simp_all add: then_do_def\<close>)
qed

lemma keeps_try:
  assumes "keeps_confidence cs act" "\<And>e. keeps_confidence cs (handler e)"
  shows "keeps_confidence cs (try_catch act handler)"
  unfolding keeps_confidence_def
proof (intro allI impI)
  fix s :: "findings \<times> world"
  assume c: "confidence (fst s) \<in> cs"
  obtain r1 t where a: "act s = (r1, t)" by (cases "act s")
  have t: "confidence (fst t) \<in> cs"
    using keepsD [OF assms(1) c] a by simp
  show "confidence (fst (snd (try_catch act handler s))) \<in> cs"
  proof (cases r1)
    case (Rejected e)
    then show ?thesis
      using keepsD [OF assms(2) [of e] t] a by (simp add: try_catch_def)
  qed (use t a in \<open>simp_all add: try_catch_def\<close>)
qed

lemma keeps_simple:
  "keeps_confidence cs (on_bus act)" "keeps_confidence cs (call r)"
  "keeps_confidence cs (await pr)" "keeps_confidence cs get_findings"
  "keeps_confidence cs (read_clock E)"
  unfolding keeps_confidence_def
  by (auto simp: on_bus_def call_def await_def get_findings_def read_clock_def
      split: prod.splits sum.splits)

lemma keeps_update:
  "(\<And>f. confidence f \<in> cs \<Longrightarrow> confidence (g f) \<in> cs) \<Longrightarrow> keeps_confidence cs (update_findings g)"
  unfolding keeps_confidence_def by (simp add: update_findings_def)

lemma keeps_case_prod:
  "(\<And>a b. keeps_confidence cs (f a b)) \<Longrightarrow> keeps_confidence cs (case x of (a, b) \<Rightarrow> f a b)"
  by (cases x) simp

lemma keeps_discovery_try: "keeps_confidence {1} (discovery_try E page)"
  unfolding discovery_try_def
  by (intro keeps_then_do keeps_simple keeps_case_prod keeps_update) simp

lemma keeps_accessibility_try:
  "keeps_confidence {9 / 10, 95 / 100} (accessibility_try E page ai)"
  unfolding accessibility_try_def accessibility_insights_def
  by (intro keeps_then_do keeps_try keeps_simple keeps_case_prod keeps_update)
     (simp_all add: push_suggestions_def)


section \<open>The frame of analyze\<close>

lemma analysis_failed_eq:
  "analysis_failed c e s =
     (case error_message e of
        Inl thrown \<Rightarrow> (Rejected thrown, ((fst s)\<lparr>confidence := c\<rparr>, snd s))
      | Inr m \<Rightarrow> (Fulfilled (),
          (push_suggestions [''Error during analysis: '' @ m] ((fst s)\<lparr>confidence := c\<rparr>), snd s)))"
  by (simp add: analysis_failed_def then_do_def update_findings_def call_def split: sum.splits)

lemma finish_analysis_eq:
  "finish_analysis E aid t0 s =
     (case fst (reportFindings E aid
                 ((fst s)\<lparr>analysisTime := int (clock E (clock_reads (snd s))) - int t0\<rparr>)
                 (snd (date_now E (snd s)))) of
        Pending \<Rightarrow> Pending
      | Rejected e \<Rightarrow> Rejected e
      | Fulfilled u \<Rightarrow>
          Fulfilled ((fst s)\<lparr>analysisTime := int (clock E (clock_reads (snd s))) - int t0\<rparr>),
      ((fst s)\<lparr>analysisTime := int (clock E (clock_reads (snd s))) - int t0\<rparr>,
       snd (reportFindings E aid
             ((fst s)\<lparr>analysisTime := int (clock E (clock_reads (snd s))) - int t0\<rparr>)
             (snd (date_now E (snd s))))))"
proof -
  obtain t w0 where d: "date_now E (snd s) = (t, w0)" by (cases "date_now E (snd s)")
  have t: "t = clock E (clock_reads (snd s))" using d by (simp add: date_now_def)
  obtain r w1 where u: "reportFindings E aid ((fst s)\<lparr>analysisTime := int t - int t0\<rparr>) w0 = (r, w1)"
    by (cases "reportFindings E aid ((fst s)\<lparr>analysisTime := int t - int t0\<rparr>) w0")
  show ?thesis
    using u unfolding t
    by (cases r)
       (simp_all add: finish_analysis_def then_do_def read_clock_def update_findings_def
          get_findings_def on_bus_def d t)
qed

lemma worker_run_eq:
  "worker_run E aid label p c body (f0, w) =
     (case fst (updateProgress E aid label p (snd (date_now E w))) of
        Pending \<Rightarrow> (Pending, (f0, snd (updateProgress E aid label p (snd (date_now E w)))))
      | Rejected e \<Rightarrow> (Rejected e, (f0, snd (updateProgress E aid label p (snd (date_now E w)))))
      | Fulfilled u \<Rightarrow>
          (case fst (try_catch body (analysis_failed c)
                      (f0, snd (updateProgress E aid label p (snd (date_now E w))))) of
             Pending \<Rightarrow> (Pending, snd (try_catch body (analysis_failed c)
                      (f0, snd (updateProgress E aid label p (snd (date_now E w))))))
           | Rejected e \<Rightarrow> (Rejected e, snd (try_catch body (analysis_failed c)
                      (f0, snd (updateProgress E aid label p (snd (date_now E w))))))
           | Fulfilled v \<Rightarrow> finish_analysis E aid (clock E (clock_reads w))
                (snd (try_catch body (analysis_failed c)
                      (f0, snd (updateProgress E aid label p (snd (date_now E w))))))))"
proof -
  obtain t0 w0 where d: "date_now E w = (t0, w0)" by (cases "date_now E w")
  have t0: "t0 = clock E (clock_reads w)" using d by (simp add: date_now_def)
  obtain r1 w1 where u: "updateProgress E aid label p w0 = (r1, w1)"
    by (cases "updateProgress E aid label p w0")
  obtain rt st where t: "try_catch body (analysis_failed c) (f0, w1) = (rt, st)"
    by (cases "try_catch body (analysis_failed c) (f0, w1)")
  show ?thesis
    by (cases r1; cases rt)
       (simp_all add: worker_run_def then_do_def read_clock_def on_bus_def d u t t0)
qed

lemma finish_progress:
  "progress_of aid (snd (snd (finish_analysis E a t0 s))) = progress_of aid (snd s)"
  by (simp add: finish_analysis_eq progress_of_reportFindings progress_of_date_now)

lemma finish_confidence:
  "fst (finish_analysis E a t0 s) = Fulfilled f \<Longrightarrow> confidence f = confidence (fst s)"
  by (auto simp: finish_analysis_eq split: promise.splits)

lemma finish_quiet:
  "never_raises E \<Longrightarrow> \<exists>f. fst (finish_analysis E a t0 s) = Fulfilled f"
  by (simp add: finish_analysis_eq reportFindings_quiet)

lemma failed_progress:
  "progress_of aid (snd (snd (analysis_failed c e s))) = progress_of aid (snd s)"
  by (simp add: analysis_failed_eq split: sum.splits)

lemma failed_confidence: "confidence (fst (snd (analysis_failed c e s))) = c"
  by (simp add: analysis_failed_eq push_suggestions_def split: sum.splits)

text \<open>The \<open>try\<close> block of a worker under its \<open>catch\<close> block.\<close>

lemma guarded_progress:
  assumes "emits aid sched body"
  shows "\<exists>ps. progress_of aid (snd (snd (try_catch body (analysis_failed c) s)))
           = progress_of aid (snd s) @ ps
         \<and> prefix ps sched
         \<and> ((\<exists>x. fst (try_catch body (analysis_failed c) s) = Fulfilled x)
              \<and> confidence (fst (snd (try_catch body (analysis_failed c) s))) \<noteq> c
             \<longrightarrow> ps = sched \<and> try_catch body (analysis_failed c) s = body s)"
proof -
  obtain rb sb where b: "body s = (rb, sb)" by (cases "body s")
  obtain ps where ps: "progress_of aid (snd sb) = progress_of aid (snd s) @ ps"
      "prefix ps sched" "(\<exists>x. rb = Fulfilled x) \<longrightarrow> ps = sched"
    using emitsD [OF assms b] by blast
  show ?thesis
  proof (cases rb)
    case (Rejected e)
    then have "try_catch body (analysis_failed c) s = analysis_failed c e sb"
      using b by (simp add: try_catch_def)
    then show ?thesis
      using ps by (intro exI [of _ ps]) (simp add: failed_progress failed_confidence)
  next
    case Pending
    then have "try_catch body (analysis_failed c) s = (Pending, sb)"
      using b by (simp add: try_catch_def)
    then show ?thesis using ps by (intro exI [of _ ps]) simp
  next
    case (Fulfilled x)
    then have "try_catch body (analysis_failed c) s = body s"
      using b by (simp add: try_catch_def)
    then show ?thesis using ps b Fulfilled by (intro exI [of _ ps]) simp
  qed
qed

lemma worker_run_progress:
  assumes "emits aid sched body"
  shows "\<exists>ps. progress_of aid (snd (snd (worker_run E aid label p c body (f0, w))))
           = progress_of aid w @ p # ps
         \<and> prefix ps sched
         \<and> (completed_successfully c (fst (worker_run E aid label p c body (f0, w)))
             \<longrightarrow> ps = sched)"
proof -
  let ?u = "updateProgress E aid label p (snd (date_now E w))"
  let ?t = "try_catch body (analysis_failed c) (f0, snd ?u)"
  let ?run = "worker_run E aid label p c body (f0, w)"
  have pu: "progress_of aid (snd ?u) = progress_of aid w @ [p]"
    by (simp add: progress_of_updateProgress progress_of_date_now)
  obtain ps where ps: "progress_of aid (snd (snd ?t)) = progress_of aid (snd ?u) @ ps"
      "prefix ps sched"
      "(\<exists>x. fst ?t = Fulfilled x) \<and> confidence (fst (snd ?t)) \<noteq> c \<longrightarrow> ps = sched"
    using guarded_progress [OF assms, of c "(f0, snd ?u)"] by auto
  have pt: "progress_of aid (snd (snd ?t)) = progress_of aid w @ p # ps"
    unfolding ps(1) pu by simp
  show ?thesis
  proof (cases "fst ?u")
    case Pending
    then have run: "?run = (Pending, (f0, snd ?u))" by (simp add: worker_run_eq)
    have "progress_of aid (snd (snd ?run)) = progress_of aid w @ p # []"
      unfolding run using pu by simp
    moreover have "\<not> completed_successfully c (fst ?run)"
      unfolding run by (simp add: completed_successfully_def)
    ultimately show ?thesis by (intro exI [of _ "[]"]) simp
  next
    case (Rejected e)
    then have run: "?run = (Rejected e, (f0, snd ?u))" by (simp add: worker_run_eq)
    have "progress_of aid (snd (snd ?run)) = progress_of aid w @ p # []"
      unfolding run using pu by simp
    moreover have "\<not> completed_successfully c (fst ?run)"
      unfolding run by (simp add: completed_successfully_def)
    ultimately show ?thesis by (intro exI [of _ "[]"]) simp
  next
    case u: (Fulfilled x)
    show ?thesis
    proof (cases "fst ?t")
      case Pending
      then have run: "?run = (Pending, snd ?t)" using u by (simp add: worker_run_eq)
      have "progress_of aid (snd (snd ?run)) = progress_of aid w @ p # ps"
        unfolding run using pt by simp
      moreover have "\<not> completed_successfully c (fst ?run)"
        unfolding run by (simp add: completed_successfully_def)
      ultimately show ?thesis using ps(2) by blast
    next
      case (Rejected e)
      then have run: "?run = (Rejected e, snd ?t)" using u by (simp add: worker_run_eq)
      have "progress_of aid (snd (snd ?run)) = progress_of aid w @ p # ps"
        unfolding run using pt by simp
      moreover have "\<not> completed_successfully c (fst ?run)"
        unfolding run by (simp add: completed_successfully_def)
      ultimately show ?thesis using ps(2) by blast
    next
      case (Fulfilled y)
      then have run: "?run = finish_analysis E aid (clock E (clock_reads w)) (snd ?t)"
        using u by (simp add: worker_run_eq)
      have p: "progress_of aid (snd (snd ?run)) = progress_of aid w @ p # ps"
        unfolding run finish_progress by (rule pt)
      have "completed_successfully c (fst ?run) \<longrightarrow> confidence (fst (snd ?t)) \<noteq> c"
      proof
        assume "completed_successfully c (fst ?run)"
        then obtain f where f: "fst ?run = Fulfilled f" "confidence f \<noteq> c"
          by (auto simp: completed_successfully_def split: promise.splits)
        then show "confidence (fst (snd ?t)) \<noteq> c"
          using finish_confidence [of E aid "clock E (clock_reads w)" "snd ?t" f] run by simp
      qed
      then have "completed_successfully c (fst ?run) \<longrightarrow> ps = sched"
        using ps(3) Fulfilled by blast
      then show ?thesis using p ps(2) by blast
    qed
  qed
qed

lemma worker_run_success:
  assumes "emits aid sched body" "completes E aid sched body" "keeps_confidence cs body"
      and "confidence f0 \<in> cs" "c \<notin> cs" "never_raises E" "sched \<noteq> []"
      and full: "progress_of aid (snd (snd (worker_run E aid label p c body (f0, w))))
           = progress_of aid w @ p # sched"
  shows "completed_successfully c (fst (worker_run E aid label p c body (f0, w)))"
proof -
  let ?u = "updateProgress E aid label p (snd (date_now E w))"
  let ?s = "(f0, snd ?u)"
  let ?t = "try_catch body (analysis_failed c) ?s"
  have pu: "progress_of aid (snd ?u) = progress_of aid w @ [p]"
    by (simp add: progress_of_updateProgress progress_of_date_now)
  have u: "fst ?u = Fulfilled ()" using assms(6) by (rule updateProgress_quiet)
  obtain rb sb where b: "body ?s = (rb, sb)" by (cases "body ?s")
  obtain ps where ps: "progress_of aid (snd sb) = progress_of aid (snd ?s) @ ps"
      "prefix ps sched"
    using emitsD [OF assms(1) b] by blast
  have t_progress: "progress_of aid (snd (snd ?t)) = progress_of aid (snd sb)"
    using b by (cases rb) (simp_all add: try_catch_def failed_progress)
  have run_progress: "progress_of aid (snd (snd (worker_run E aid label p c body (f0, w))))
      = progress_of aid (snd (snd ?t))"
    using u by (cases "fst ?t") (simp_all add: worker_run_eq finish_progress)
  have "progress_of aid w @ p # sched
      = progress_of aid (snd (snd (worker_run E aid label p c body (f0, w))))"
    using full by simp
  also have "\<dots> = progress_of aid (snd (snd ?t))" by (rule run_progress)
  also have "\<dots> = progress_of aid (snd sb)" by (rule t_progress)
  also have "\<dots> = progress_of aid (snd ?s) @ ps" by (rule ps(1))
  also have "\<dots> = progress_of aid w @ p # ps" using pu by simp
  finally have "ps = sched" by simp
  then have "progress_of aid (snd (snd (body ?s))) = progress_of aid (snd ?s) @ sched"
    using ps(1) b by simp
  then obtain x where x: "rb = Fulfilled x"
    using completesD [OF assms(2) assms(6), of ?s] b by auto
  then have t: "?t = (Fulfilled x, sb)" using b by (simp add: try_catch_def)
  have conf: "confidence (fst sb) \<in> cs"
    using keepsD [OF assms(3), of ?s] assms(4) b by simp
  obtain f where f: "fst (finish_analysis E aid (clock E (clock_reads w)) sb) = Fulfilled f"
    using finish_quiet [OF assms(6)] by blast
  then have "confidence f \<in> cs" using finish_confidence [OF f] conf by simp
  then have "confidence f \<noteq> c" using assms(5) by auto
  then show ?thesis
    using u t f by (simp add: worker_run_eq completed_successfully_def)
qed


section \<open>Progress of the workers\<close>

lemma discovery_analyze_eq:
  "discovery_analyze E page w =
     (fst (worker_run E discovery_id ''Mapping page structure...'' 10 (1 / 2)
             (discovery_try E page) (discovery_initial, w)),
      snd (snd (worker_run E discovery_id ''Mapping page structure...'' 10 (1 / 2)
             (discovery_try E page) (discovery_initial, w))))"
  by (simp add: discovery_analyze_def split: prod.splits)

lemma accessibility_analyze_eq:
  "accessibility_analyze E page ai w =
     (fst (worker_run E accessibility_id ''Starting accessibility audit...'' 5 (3 / 10)
             (accessibility_try E page ai) (accessibility_initial, w)),
      snd (snd (worker_run E accessibility_id ''Starting accessibility audit...'' 5 (3 / 10)
             (accessibility_try E page ai) (accessibility_initial, w))))"
  by (simp add: accessibility_analyze_def split: prod.splits)


lemma prefix_sorted: "prefix xs ys \<Longrightarrow> sorted ys \<Longrightarrow> sorted xs"
  by (auto simp: prefix_def sorted_append)

lemma prefix_last_full:
  assumes "prefix xs ys" "xs \<noteq> []" "distinct ys" "last xs = last ys"
  shows "xs = ys"
proof -
  obtain zs where ys: "ys = xs @ zs" using assms(1) by (auto simp: prefix_def)
  have "zs = []"
  proof (rule ccontr)
    assume z: "zs \<noteq> []"
    then have "last ys = last zs" using ys by simp
    then have "last xs \<in> set zs" using assms(4) z by simp
    moreover have "last xs \<in> set xs" using assms(2) by simp
    ultimately show False using assms(3) ys by auto
  qed
  then show ?thesis using ys by simp
qed

lemma worker_schedule:
  assumes "emits aid sched body" "completes E aid sched body" "keeps_confidence cs body"
      and "confidence f0 \<in> cs" "c \<notin> cs" "sched \<noteq> []"
      and "sorted (p # sched)" "set (p # sched) \<subseteq> {0..100}" "last sched = 100"
          "distinct (p # sched)"
  shows "\<exists>ps. progress_of aid (snd (snd (worker_run E aid label p c body (f0, w))))
             = progress_of aid w @ ps
     \<and> ps \<noteq> [] \<and> prefix ps (p # sched) \<and> sorted ps \<and> set ps \<subseteq> {0..100}
     \<and> (completed_successfully c (fst (worker_run E aid label p c body (f0, w)))
          \<longrightarrow> last ps = 100)
     \<and> (never_raises E \<and> last ps = 100
          \<longrightarrow> completed_successfully c (fst (worker_run E aid label p c body (f0, w))))"
proof -
  let ?run = "worker_run E aid label p c body (f0, w)"
  obtain ps where ps: "progress_of aid (snd (snd ?run)) = progress_of aid w @ p # ps"
      "prefix ps sched" "completed_successfully c (fst ?run) \<longrightarrow> ps = sched"
    using worker_run_progress [OF assms(1), of E label p c f0 w] by blast
  have pre: "prefix (p # ps) (p # sched)" using ps(2) by simp
  have srt: "sorted (p # ps)" using pre assms(7) by (rule prefix_sorted)
  have rng: "set (p # ps) \<subseteq> {0..100}"
    using set_mono_prefix [OF pre] assms(8) by blast
  have fwd: "completed_successfully c (fst ?run) \<longrightarrow> last (p # ps) = 100"
    using ps(3) assms(6) assms(9) by auto
  have bwd: "never_raises E \<and> last (p # ps) = 100 \<longrightarrow> completed_successfully c (fst ?run)"
  proof
    assume h: "never_raises E \<and> last (p # ps) = 100"
    have "last (p # ps) = last (p # sched)" using h assms(6) assms(9) by simp
    then have "p # ps = p # sched"
      using prefix_last_full [OF pre _ assms(10)] by simp
    then have "progress_of aid (snd (snd ?run)) = progress_of aid w @ p # sched"
      using ps(1) by simp
    then show "completed_successfully c (fst ?run)"
      using worker_run_success [OF assms(1) assms(2) assms(3) assms(4) assms(5) _ assms(6)] h
      by blast
  qed
  show ?thesis
    using ps(1) pre srt rng fwd bwd by (intro exI [of _ "p # ps"]) simp
qed


lemmas run_defs = worker_run_def then_do_def try_catch_def on_bus_def read_clock_def
  date_now_def updateProgress_def reportFindings_def publish_def call_def
  update_findings_def get_findings_def finish_analysis_def analysis_failed_def
  returns_def await_def Let_def

lemma never_raises_quiet: "never_raises quiet_env"
  by (simp add: never_raises_def quiet_env_def)

lemma discovery_sound_progress:
  "progress_of discovery_id (snd (discovery_analyze quiet_env sound_discovery_page (listening [0])))
     = [10, 30, 60, 80, 100]"
  by (simp add: discovery_analyze_def discovery_try_def run_defs listening_def empty_world_def
      quiet_env_def sound_discovery_page_def progress_of_def discovery_initial_def)

lemma accessibility_sound_progress:
  "progress_of accessibility_id
     (snd (accessibility_analyze quiet_env sound_accessibility_page (callAI no_credential)
            (listening [0])))
     = [5, 15, 30, 45, 60, 75, 90, 100]"
  by (simp add: accessibility_analyze_def accessibility_try_def accessibility_insights_def
      run_defs listening_def empty_world_def quiet_env_def sound_accessibility_page_def
      progress_of_def accessibility_initial_def callAI_without_key no_credential_def)

section \<open>Progress of the performance, security and UX workers\<close>

lemma emits_returns: "emits aid [] (returns x)"
  by (rule emitsI) (auto simp: returns_def)

lemma emits_if:
  "emits aid sched a \<Longrightarrow> emits aid sched b \<Longrightarrow> emits aid sched (if c then a else b)"
  by simp

lemma keeps_returns: "keeps_confidence cs (returns x)"
  unfolding keeps_confidence_def by (simp add: returns_def)

lemma keeps_if:
  "keeps_confidence cs a \<Longrightarrow> keeps_confidence cs b \<Longrightarrow> keeps_confidence cs (if c then a else b)"
  by simp

lemma emits_performance_insights: "emits aid [] (performance_insights ai a b c d)"
  unfolding performance_insights_def
  by (intro emits_try_silent emits_silent_then emits_await emits_update)

lemma emits_security_insights: "emits aid [] (security_insights ai a b)"
  unfolding security_insights_def
  by (intro emits_try_silent emits_silent_then emits_await emits_update)

lemma emits_ux_insights: "emits aid [] (ux_insights ai a b c d)"
  unfolding ux_insights_def
  by (intro emits_if emits_try_silent emits_silent_then emits_await emits_update emits_returns)

lemma emits_mixed_scan:
  "emits aid [] (if isHTTPS page then call (mixed_scan page) else returns (0, 0))"
  by (intro emits_if emits_call emits_returns)

lemma emits_performance_try:
  "emits performance_id [20, 40, 60, 75, 90, 100] (performance_try E page ai)"
  unfolding performance_try_def
  by (intro emits_call_then emits_progress_then emits_update_then emits_case_prod emits_progress
      emits_silent_then [OF emits_performance_insights])

lemma emits_security_try:
  "emits security_id [15, 30, 45, 60, 75, 90, 100] (security_try E page ai)"
  unfolding security_try_def
  by (intro emits_call_then emits_progress_then emits_update_then emits_case_prod emits_progress
      emits_silent_then [OF emits_security_insights] emits_silent_then [OF emits_mixed_scan])

lemma emits_ux_try:
  "emits ux_id [20, 35, 50, 65, 80, 100] (ux_try E page ai)"
  unfolding ux_try_def
  by (intro emits_call_then emits_progress_then emits_update_then emits_case_prod emits_progress
      emits_silent_then [OF emits_ux_insights])

lemma completes_performance_try:
  "completes E performance_id [20, 40, 60, 75, 90, 100] (performance_try E page ai)"
  unfolding performance_try_def
  by (intro completes_call_then completes_progress_then completes_update_then
      completes_case_prod completes_progress
      completes_silent_then [OF emits_performance_insights]) simp_all

lemma completes_security_try:
  "completes E security_id [15, 30, 45, 60, 75, 90, 100] (security_try E page ai)"
  unfolding security_try_def
  by (intro completes_call_then completes_progress_then completes_update_then
      completes_case_prod completes_progress
      completes_silent_then [OF emits_security_insights]
      completes_silent_then [OF emits_mixed_scan]) simp_all

lemma completes_ux_try:
  "completes E ux_id [20, 35, 50, 65, 80, 100] (ux_try E page ai)"
  unfolding ux_try_def
  by (intro completes_call_then completes_progress_then completes_update_then
      completes_case_prod completes_progress
      completes_silent_then [OF emits_ux_insights]) simp_all

lemma keeps_performance_try:
  "keeps_confidence {85 / 100, 95 / 100} (performance_try E page ai)"
  unfolding performance_try_def performance_insights_def
  by (intro keeps_then_do keeps_try keeps_simple keeps_case_prod keeps_update)
     (simp_all add: push_suggestions_def)

lemma keeps_security_try:
  "keeps_confidence {80 / 100, 90 / 100} (security_try E page ai)"
  unfolding security_try_def security_insights_def
  by (intro keeps_then_do keeps_try keeps_simple keeps_case_prod keeps_update keeps_if
      keeps_returns)
     (simp_all add: push_suggestions_def)

lemma keeps_ux_try:
  "keeps_confidence {75 / 100, 90 / 100} (ux_try E page ai)"
  unfolding ux_try_def ux_insights_def
  by (intro keeps_then_do keeps_try keeps_simple keeps_case_prod keeps_update keeps_if
      keeps_returns)
     (simp_all add: push_suggestions_def)

lemma performance_analyze_eq:
  "performance_analyze E page ai w =
     (fst (worker_run E performance_id ''Measuring performance metrics...'' 10 (4 / 10)
             (performance_try E page ai) (performance_initial, w)),
      snd (snd (worker_run E performance_id ''Measuring performance metrics...'' 10 (4 / 10)
             (performance_try E page ai) (performance_initial, w))))"
  by (simp add: performance_analyze_def split: prod.splits)

lemma security_analyze_eq:
  "security_analyze E page ai w =
     (fst (worker_run E security_id ''Starting security scan...'' 10 (3 / 10)
             (security_try E page ai) (security_initial, w)),
      snd (snd (worker_run E security_id ''Starting security scan...'' 10 (3 / 10)
             (security_try E page ai) (security_initial, w))))"
  by (simp add: security_analyze_def split: prod.splits)

lemma ux_analyze_eq:
  "ux_analyze E page ai w =
     (fst (worker_run E ux_id ''Analyzing UX and design...'' 10 (3 / 10)
             (ux_try E page ai) (ux_initial, w)),
      snd (snd (worker_run E ux_id ''Analyzing UX and design...'' 10 (3 / 10)
             (ux_try E page ai) (ux_initial, w))))"
  by (simp add: ux_analyze_def split: prod.splits)

lemma performance_sound_run:
  "progress_of performance_id
     (snd (performance_analyze quiet_env sound_performance_page (callAI no_credential)
            (listening [0])))
     = [10, 20, 40, 60, 75, 90, 100]
   \<and> map_promise (\<lambda>f. (map title (issues f), confidence f, elementsChecked (metadata f)))
        (fst (performance_analyze quiet_env sound_performance_page (callAI no_credential)
            (listening [0])))
     = Fulfilled ([''Large Unoptimized Images'', ''Render-Blocking JavaScript'',
          ''High Script Count''], 85 / 100, Some 26)"
  by (simp add: performance_analyze_def performance_try_def performance_insights_def
      performance_issues_def large_images_def blocking_javascript_def high_script_count_def
      run_defs listening_def empty_world_def quiet_env_def sound_performance_page_def
      progress_of_def performance_initial_def callAI_without_key no_credential_def
      push_suggestions_def)

lemma security_sound_run:
  "progress_of security_id
     (snd (security_analyze quiet_env sound_security_page (callAI no_credential)
            (listening [0])))
     = [10, 15, 30, 45, 60, 75, 90, 100]
   \<and> map_promise (\<lambda>f. (map title (issues f), confidence f, elementsChecked (metadata f)))
        (fst (security_analyze quiet_env sound_security_page (callAI no_credential)
            (listening [0])))
     = Fulfilled ([''Site Not Using HTTPS'', ''Password Field Over HTTP''], 80 / 100, Some 3)"
  by (simp add: security_analyze_def security_try_def security_insights_def
      security_issues_def not_https_def password_over_http_def isHTTPS_def
      run_defs listening_def empty_world_def quiet_env_def sound_security_page_def
      progress_of_def security_initial_def callAI_without_key no_credential_def
      push_suggestions_def)

lemma ux_sound_run:
  "progress_of ux_id
     (snd (ux_analyze quiet_env sound_ux_page (callAI no_credential) (listening [0])))
     = [10, 20, 35, 50, 65, 80, 100]
   \<and> map_promise (\<lambda>f. (map title (issues f), confidence f, elementsChecked (metadata f),
          length (suggestions f)))
        (fst (ux_analyze quiet_env sound_ux_page (callAI no_credential) (listening [0])))
     = Fulfilled ([''Missing Viewport Meta Tag'', ''Small Touch Targets''], 75 / 100, Some 21, 5)"
  by (simp add: ux_analyze_def ux_try_def ux_insights_def
      ux_issues_def missing_viewport_def small_targets_def
      run_defs listening_def empty_world_def quiet_env_def sound_ux_page_def
      progress_of_def ux_initial_def push_suggestions_def)

text \<open>
  C7, as the specification states it, fails whichever way "completes successfully" is
  read. In the first run a listener throws at the message with progress 100: the
  worker has published 100 as its last progress, and its analysis ends in the \<open>catch\<close>
  block, with the lowered confidence and the error suggestion. In the second run a
  DOM query throws: \<open>analyze\<close> fulfils, and the last progress published is 30.
\<close>

theorem last_progress_and_success_differ:
  "progress_of discovery_id
     (snd (discovery_analyze completion_hater sound_discovery_page (listening [0])))
     = [10, 30, 60, 80, 100]
   \<and> map_promise confidence
        (fst (discovery_analyze completion_hater sound_discovery_page (listening [0])))
     = Fulfilled (1 / 2)
   \<and> map_promise (\<lambda>f. last (suggestions f))
        (fst (discovery_analyze completion_hater sound_discovery_page (listening [0])))
     = Fulfilled ''Error during analysis: boom''
   \<and> progress_of discovery_id
        (snd (discovery_analyze quiet_env broken_discovery_page (listening [0])))
     = [10, 30]
   \<and> map_promise confidence
        (fst (discovery_analyze quiet_env broken_discovery_page (listening [0])))
     = Fulfilled (1 / 2)"
  by (simp add: discovery_analyze_def discovery_try_def run_defs listening_def empty_world_def
      completion_hater_def quiet_env_def sound_discovery_page_def broken_discovery_page_def
      progress_of_def discovery_initial_def push_suggestions_def)

text \<open>
  C7, amended. For each of the five workers, the progress percentages it publishes during
  \<open>analyze\<close> are the first few of its fixed schedule: they never decrease and lie
  between 0 and 100. If the worker completes successfully (\<open>analyze\<close> fulfils with
  findings that do not carry the confidence of the outer \<open>catch\<close> block), the last one
  is 100. If the last one is 100 and no listener on the bus throws, the worker has
  completed successfully.
\<close>

theorem progress_follows_schedule:
  "\<exists>ps. progress_of (worker_id wk) (snd (run_analyze E wk w))
            = progress_of (worker_id wk) w @ ps
      \<and> ps \<noteq> [] \<and> prefix ps (schedule wk) \<and> sorted ps \<and> set ps \<subseteq> {0..100}
      \<and> (completed_successfully (caught_confidence wk) (fst (run_analyze E wk w))
           \<longrightarrow> last ps = 100)
      \<and> (never_raises E \<and> last ps = 100
           \<longrightarrow> completed_successfully (caught_confidence wk) (fst (run_analyze E wk w)))"
proof (cases wk)
  case (DiscoveryWorker page)
  have "confidence discovery_initial \<in> {1}" by (simp add: discovery_initial_def)
  then show ?thesis
    unfolding DiscoveryWorker run_analyze.simps worker_id.simps schedule.simps
      caught_confidence.simps discovery_analyze_eq fst_conv snd_conv
    by (intro worker_schedule [OF emits_discovery_try completes_discovery_try
          keeps_discovery_try]) simp_all
next
  case (AccessibilityWorker page ai)
  have "confidence accessibility_initial \<in> {9 / 10, 95 / 100}"
    by (simp add: accessibility_initial_def)
  then show ?thesis
    unfolding AccessibilityWorker run_analyze.simps worker_id.simps schedule.simps
      caught_confidence.simps accessibility_analyze_eq fst_conv snd_conv
    by (intro worker_schedule [OF emits_accessibility_try completes_accessibility_try
          keeps_accessibility_try]) simp_all
next
  case (PerformanceWorker page ai)
  have "confidence performance_initial \<in> {85 / 100, 95 / 100}"
    by (simp add: performance_initial_def)
  then show ?thesis
    unfolding PerformanceWorker run_analyze.simps worker_id.simps schedule.simps
      caught_confidence.simps performance_analyze_eq fst_conv snd_conv
    by (intro worker_schedule [OF emits_performance_try completes_performance_try
          keeps_performance_try]) simp_all
next
  case (SecurityWorker page ai)
  have "confidence security_initial \<in> {80 / 100, 90 / 100}"
    by (simp add: security_initial_def)
  then show ?thesis
    unfolding SecurityWorker run_analyze.simps worker_id.simps schedule.simps
      caught_confidence.simps security_analyze_eq fst_conv snd_conv
    by (intro worker_schedule [OF emits_security_try completes_security_try
          keeps_security_try]) simp_all
next
  case (UXWorker page ai)
  have "confidence ux_initial \<in> {75 / 100, 90 / 100}"
    by (simp add: ux_initial_def)
  then show ?thesis
    unfolding UXWorker run_analyze.simps worker_id.simps schedule.simps
      caught_confidence.simps ux_analyze_eq fst_conv snd_conv
    by (intro worker_schedule [OF emits_ux_try completes_ux_try keeps_ux_try]) simp_all
qed

theorem progress_follows_schedule_witness:
  "progress_of discovery_id
     (snd (run_analyze quiet_env (DiscoveryWorker sound_discovery_page) (listening [0])))
     = [10, 30, 60, 80, 100]
   \<and> completed_successfully (1 / 2)
        (fst (run_analyze quiet_env (DiscoveryWorker sound_discovery_page) (listening [0])))
   \<and> progress_of security_id
        (snd (run_analyze quiet_env (SecurityWorker sound_security_page (callAI no_credential))
               (listening [0])))
     = [10, 15, 30, 45, 60, 75, 90, 100]
   \<and> completed_successfully (3 / 10)
        (fst (run_analyze quiet_env (SecurityWorker sound_security_page (callAI no_credential))
               (listening [0])))"
proof -
  note d = progress_follows_schedule [where wk = "DiscoveryWorker sound_discovery_page"
      and E = quiet_env and w = "listening [0]"]
  note s = progress_follows_schedule [where E = quiet_env and w = "listening [0]"
      and wk = "SecurityWorker sound_security_page (callAI no_credential)"]
  have start: "progress_of discovery_id (listening [0]) = []"
      "progress_of security_id (listening [0]) = []"
    by (simp_all add: progress_of_def listening_simps)
  have sp: "progress_of security_id
        (snd (security_analyze quiet_env sound_security_page (callAI no_credential)
               (listening [0])))
     = [10, 15, 30, 45, 60, 75, 90, 100]"
    using security_sound_run by (rule conjunct1)
  have "completed_successfully (1 / 2)
        (fst (discovery_analyze quiet_env sound_discovery_page (listening [0])))"
    using d never_raises_quiet
    unfolding run_analyze.simps worker_id.simps caught_confidence.simps
      discovery_sound_progress start
    by auto
  moreover have "completed_successfully (3 / 10)
        (fst (security_analyze quiet_env sound_security_page (callAI no_credential)
               (listening [0])))"
    using s never_raises_quiet
    unfolding run_analyze.simps worker_id.simps caught_confidence.simps sp start
    by auto
  ultimately show ?thesis
    using discovery_sound_progress sp by simp
qed

section \<open>Errors inside the analysis\<close>

lemma quiet_progress:
  "never_raises E \<Longrightarrow>
   on_bus (updateProgress E aid label p) s
     = (Fulfilled (), (fst s, snd (updateProgress E aid label p (snd s))))"
  using updateProgress_quiet [of E aid label p "snd s"]
  by (cases "updateProgress E aid label p (snd s)") (simp add: on_bus_def)

lemma discovery_try_fails:
  assumes "never_raises E" "discovery_failure page = Some e"
  shows "fst (discovery_try E page s) = Rejected e"
proof (cases "link_scan page")
  case (Inl a)
  then show ?thesis using assms
    by (simp add: discovery_try_def discovery_failure_def then_do_def call_def)
next
  case links: (Inr a)
  show ?thesis
  proof (cases "control_scan page")
    case (Inl b)
    then show ?thesis using assms links
      by (simp add: discovery_try_def discovery_failure_def then_do_def call_def quiet_progress
          split: prod.splits)
  next
    case controls: (Inr b)
    show ?thesis
    proof (cases "media_scan page")
      case (Inl c)
      then show ?thesis using assms links controls
        by (simp add: discovery_try_def discovery_failure_def then_do_def call_def
            quiet_progress split: prod.splits)
    next
      case media: (Inr c)
      show ?thesis
      proof (cases "landmark_scan page")
        case (Inl d)
        then show ?thesis using assms links controls media
          by (simp add: discovery_try_def discovery_failure_def then_do_def call_def
              quiet_progress split: prod.splits)
      next
        case (Inr d)
        then show ?thesis using assms links controls media
          by (simp add: discovery_failure_def)
      qed
    qed
  qed
qed

lemma accessibility_try_fails:
  assumes "never_raises E" "accessibility_failure page = Some e"
  shows "fst (accessibility_try E page ai s) = Rejected e"
proof (cases "img_scan page")
  case (Inl a)
  then show ?thesis using assms
    by (simp add: accessibility_try_def accessibility_failure_def then_do_def call_def
        quiet_progress)
next
  case images: (Inr a)
  show ?thesis
  proof (cases "input_scan page")
    case (Inl b)
    then show ?thesis using assms images
      by (simp add: accessibility_try_def accessibility_failure_def then_do_def call_def
          quiet_progress split: prod.splits)
  next
    case inputs: (Inr b)
    show ?thesis
    proof (cases "button_scan page")
      case (Inl c)
      then show ?thesis using assms images inputs
        by (simp add: accessibility_try_def accessibility_failure_def then_do_def call_def
            quiet_progress split: prod.splits)
    next
      case buttons: (Inr c)
      show ?thesis
      proof (cases "heading_scan page")
        case (Inl d)
        then show ?thesis using assms images inputs buttons
          by (simp add: accessibility_try_def accessibility_failure_def then_do_def call_def
              quiet_progress update_findings_def split: prod.splits)
      next
        case headings: (Inr d)
        show ?thesis
        proof (cases "onclick_scan page")
          case (Inl x)
          then show ?thesis using assms images inputs buttons headings
            by (simp add: accessibility_try_def accessibility_failure_def then_do_def call_def
                quiet_progress update_findings_def split: prod.splits)
        next
          case (Inr x)
          then show ?thesis using assms images inputs buttons headings
            by (simp add: accessibility_failure_def)
        qed
      qed
    qed
  qed
qed

lemma then_do_call_Inr: "then_do (call (Inr x)) rest s = rest x s"
  by (simp add: then_do_def call_def)

lemma then_do_call_Inl: "then_do (call (Inl e)) rest s = (Rejected e, s)"
  by (simp add: then_do_def call_def)

lemma then_do_returns: "then_do (returns x) rest s = rest x s"
  by (simp add: then_do_def returns_def)

lemma then_do_update_findings: "then_do (update_findings g) rest s = rest () (g (fst s), snd s)"
  by (simp add: then_do_def update_findings_def)

lemma then_do_quiet_progress:
  "never_raises E \<Longrightarrow>
   then_do (on_bus (updateProgress E aid label p)) rest s
     = rest () (fst s, snd (updateProgress E aid label p (snd s)))"
  by (simp add: then_do_def quiet_progress)

lemmas step_simps = then_do_call_Inr then_do_call_Inl then_do_returns then_do_update_findings
  then_do_quiet_progress

lemma performance_try_fails:
  assumes "never_raises E" "performance_failure page = Some e"
  shows "fst (performance_try E page ai s) = Rejected e"
proof (cases "timing_scan page")
  case (Inl x0)
  then show ?thesis using assms
    by (simp add: performance_try_def performance_failure_def step_simps split: prod.splits)
next
  case s0: (Inr x0)
  show ?thesis
  proof (cases "image_scan page")
    case (Inl x1)
    then show ?thesis using assms s0
      by (simp add: performance_try_def performance_failure_def step_simps split: prod.splits)
  next
    case s1: (Inr x1)
    show ?thesis
    proof (cases "blocking_scan page")
      case (Inl x2)
      then show ?thesis using assms s0 s1
        by (simp add: performance_try_def performance_failure_def step_simps split: prod.splits)
    next
      case s2: (Inr x2)
      show ?thesis
      proof (cases "resource_scan page")
        case (Inl x3)
        then show ?thesis using assms s0 s1 s2
          by (simp add: performance_try_def performance_failure_def step_simps split: prod.splits)
      next
        case (Inr x3)
        then show ?thesis using assms s0 s1 s2
          by (simp add: performance_failure_def)
      qed
    qed
  qed
qed

lemma ux_try_fails:
  assumes "never_raises E" "ux_failure page = Some e"
  shows "fst (ux_try E page ai s) = Rejected e"
proof (cases "viewport_scan page")
  case (Inl x0)
  then show ?thesis using assms
    by (simp add: ux_try_def ux_failure_def step_simps split: prod.splits)
next
  case s0: (Inr x0)
  show ?thesis
  proof (cases "target_scan page")
    case (Inl x1)
    then show ?thesis using assms s0
      by (simp add: ux_try_def ux_failure_def step_simps split: prod.splits)
  next
    case s1: (Inr x1)
    show ?thesis
    proof (cases "layout_scan page")
      case (Inl x2)
      then show ?thesis using assms s0 s1
        by (simp add: ux_try_def ux_failure_def step_simps split: prod.splits)
    next
      case s2: (Inr x2)
      show ?thesis
      proof (cases "paragraph_scan page")
        case (Inl x3)
        then show ?thesis using assms s0 s1 s2
          by (simp add: ux_try_def ux_failure_def step_simps split: prod.splits)
      next
        case s3: (Inr x3)
        show ?thesis
        proof (cases "cta_scan page")
          case (Inl x4)
          then show ?thesis using assms s0 s1 s2 s3
            by (simp add: ux_try_def ux_failure_def step_simps split: prod.splits)
        next
          case (Inr x4)
          then show ?thesis using assms s0 s1 s2 s3
            by (simp add: ux_failure_def)
        qed
      qed
    qed
  qed
qed

lemma security_try_fails_https:
  assumes "never_raises E" "isHTTPS page" "security_failure page = Some e"
  shows "fst (security_try E page ai s) = Rejected e"
proof (cases "mixed_scan page")
  case (Inl x0)
  then show ?thesis using assms
    by (simp add: security_try_def security_failure_def step_simps split: prod.splits)
next
  case s0: (Inr x0)
  show ?thesis
  proof (cases "inline_scan page")
    case (Inl x1)
    then show ?thesis using assms s0
      by (simp add: security_try_def security_failure_def step_simps split: prod.splits)
  next
    case s1: (Inr x1)
    show ?thesis
    proof (cases "form_scan page")
      case (Inl x2)
      then show ?thesis using assms s0 s1
        by (simp add: security_try_def security_failure_def step_simps split: prod.splits)
    next
      case s2: (Inr x2)
      show ?thesis
      proof (cases "password_scan page")
        case (Inl x3)
        then show ?thesis using assms s0 s1 s2
          by (simp add: security_try_def security_failure_def step_simps split: prod.splits)
      next
        case s3: (Inr x3)
        show ?thesis
        proof (cases "script_scan page")
          case (Inl x4)
          then show ?thesis using assms s0 s1 s2 s3
            by (simp add: security_try_def security_failure_def step_simps split: prod.splits)
        next
          case (Inr x4)
          then show ?thesis using assms s0 s1 s2 s3
            by (simp add: security_failure_def)
        qed
      qed
    qed
  qed
qed

lemma security_try_fails_http:
  assumes "never_raises E" "\<not> isHTTPS page" "security_failure page = Some e"
  shows "fst (security_try E page ai s) = Rejected e"
proof (cases "inline_scan page")
  case (Inl x0)
  then show ?thesis using assms
    by (simp add: security_try_def security_failure_def step_simps split: prod.splits)
next
  case s0: (Inr x0)
  show ?thesis
  proof (cases "form_scan page")
    case (Inl x1)
    then show ?thesis using assms s0
      by (simp add: security_try_def security_failure_def step_simps split: prod.splits)
  next
    case s1: (Inr x1)
    show ?thesis
    proof (cases "password_scan page")
      case (Inl x2)
      then show ?thesis using assms s0 s1
        by (simp add: security_try_def security_failure_def step_simps split: prod.splits)
    next
      case s2: (Inr x2)
      show ?thesis
      proof (cases "script_scan page")
        case (Inl x3)
        then show ?thesis using assms s0 s1 s2
          by (simp add: security_try_def security_failure_def step_simps split: prod.splits)
      next
        case (Inr x3)
        then show ?thesis using assms s0 s1 s2
          by (simp add: security_failure_def)
      qed
    qed
  qed
qed

lemma security_try_fails:
  assumes "never_raises E" "security_failure page = Some e"
  shows "fst (security_try E page ai s) = Rejected e"
  using assms security_try_fails_https [of E page e ai s] security_try_fails_http [of E page e ai s]
  by (cases "isHTTPS page") simp_all

lemma worker_run_caught:
  assumes "never_raises E" "error_message e = Inr m"
      and "\<And>s. fst (body s) = Rejected e"
  shows "\<exists>f. fst (worker_run E aid label p c body (f0, w)) = Fulfilled f
     \<and> confidence f = c
     \<and> (\<exists>older. suggestions f = older @ [''Error during analysis: '' @ m])
     \<and> (\<exists>ts cid. console (snd (snd (worker_run E aid label p c body (f0, w)))) \<noteq> []
          \<and> last (console (snd (snd (worker_run E aid label p c body (f0, w)))))
             = \<lparr> msg_agentId = aid, msg_type = FINDINGS, payload = FindingsPayload f,
                 timestamp = ts, correlationId = cid \<rparr>)"
proof -
  let ?u = "updateProgress E aid label p (snd (date_now E w))"
  let ?s = "(f0, snd ?u)"
  have u: "fst ?u = Fulfilled ()" using assms(1) by (rule updateProgress_quiet)
  obtain sb where b: "body ?s = (Rejected e, sb)"
    using assms(3) [of ?s] by (cases "body ?s") simp
  let ?g = "push_suggestions [''Error during analysis: '' @ m] ((fst sb)\<lparr>confidence := c\<rparr>)"
  have t: "try_catch body (analysis_failed c) ?s = (Fulfilled (), (?g, snd sb))"
    using b assms(2) by (simp add: try_catch_def analysis_failed_eq)
  let ?f = "?g\<lparr>analysisTime := int (clock E (clock_reads (snd sb))) - int (clock E (clock_reads w))\<rparr>"
  let ?r = "reportFindings E aid ?f (snd (date_now E (snd sb)))"
  have r: "fst ?r = Fulfilled ()" using assms(1) by (rule reportFindings_quiet)
  have run: "worker_run E aid label p c body (f0, w) = (Fulfilled ?f, (?f, snd ?r))"
    using u t r by (simp add: worker_run_eq finish_analysis_eq)
  have "confidence ?f = c" by (simp add: push_suggestions_def)
  moreover have "suggestions ?f = suggestions (fst sb) @ [''Error during analysis: '' @ m]"
    by (simp add: push_suggestions_def)
  moreover have "console (snd ?r) \<noteq> []
      \<and> last (console (snd ?r)) = \<lparr> msg_agentId = aid, msg_type = FINDINGS,
           payload = FindingsPayload ?f,
           timestamp = clock E (clock_reads (snd (date_now E (snd sb)))),
           correlationId = message_cid aid (clock E (Suc (clock_reads (snd (date_now E (snd sb)))))) \<rparr>"
    by (simp add: reportFindings_console)
  ultimately show ?thesis unfolding run fst_conv snd_conv by blast
qed


text \<open>
  C10, as the specification states it, fails. On a bus where nothing throws, a DOM query
  of the discovery worker that throws \<open>undefined\<close> sends the worker into its \<open>catch\<close>
  block, where reading \<open>error.message\<close> throws a \<open>TypeError\<close>: \<open>analyze\<close> rejects, no
  FINDINGS message is published, and the Coordinator replaces the worker's findings by
  the record with confidence 0; on the sound page the same run fulfils with confidence
  1. And when the query throws \<open>new Error('boom')\<close> and a listener accepts only findings
  of confidence 1, the worker catches the error and lowers the confidence, the listener
  throws at the FINDINGS message, \<open>reportFindings\<close> throws outside any \<open>try\<close> block, and
  \<open>analyze\<close> rejects as well; the findings of the sound page pass this listener.
\<close>

theorem internal_error_can_reach_coordinator:
  "discovery_failure nullish_discovery_page = Some Nullish
   \<and> fst (discovery_analyze quiet_env nullish_discovery_page (listening [0]))
     = Rejected type_error
   \<and> filter (\<lambda>m. msg_type m = FINDINGS)
        (console (snd (discovery_analyze quiet_env nullish_discovery_page (listening [0])))) = []
   \<and> map_promise confidence
        (guarded_analyze
          \<lparr> agent_id = discovery_id, agent_name = ''Discovery Agent'', agent_emoji = [],
            analyze = fst (discovery_analyze quiet_env nullish_discovery_page (listening [0])) \<rparr>)
     = Fulfilled 0
   \<and> map_promise confidence
        (fst (discovery_analyze quiet_env sound_discovery_page (listening [0])))
     = Fulfilled 1
   \<and> discovery_failure broken_discovery_page = Some (ErrorObj ''boom'')
   \<and> fst (discovery_analyze wary_env broken_discovery_page (listening [0]))
     = Rejected (ErrorObj ''unreliable findings'')
   \<and> map_promise confidence
        (guarded_analyze
          \<lparr> agent_id = discovery_id, agent_name = ''Discovery Agent'', agent_emoji = [],
            analyze = fst (discovery_analyze wary_env broken_discovery_page (listening [0])) \<rparr>)
     = Fulfilled 0
   \<and> map_promise confidence
        (fst (discovery_analyze wary_env sound_discovery_page (listening [0])))
     = Fulfilled 1"
  by (simp add: discovery_analyze_def discovery_try_def run_defs listening_def empty_world_def
      quiet_env_def wary_env_def sound_discovery_page_def broken_discovery_page_def
      nullish_discovery_page_def discovery_initial_def push_suggestions_def
      discovery_failure_def guarded_analyze_def degraded_def type_error_def)

text \<open>
  C10, amended. Let no listener on the bus throw, and let a query inside the \<open>try\<close>
  block of a worker throw an error that has a message (anything but \<open>null\<close> and
  \<open>undefined\<close>). Then \<open>analyze\<close> fulfils; the findings have the reduced, nonzero
  confidence of the worker's \<open>catch\<close> block (0.5 for the discovery worker, 0.3 for the
  accessibility worker) and end with the suggestion \<open>Error during analysis: <message>\<close>;
  the last message on the bus is the FINDINGS message with these findings; and the
  Coordinator passes them on as they are.
\<close>

theorem internal_error_is_caught_by_worker:
  assumes "never_raises E" and "error_message e = Inr m" and "worker_failure wk = Some e"
  shows "\<exists>f. fst (run_analyze E wk w) = Fulfilled f
     \<and> confidence f = caught_confidence wk \<and> 0 < confidence f \<and> confidence f < 1
     \<and> (\<exists>older. suggestions f = older @ [''Error during analysis: '' @ m])
     \<and> (\<exists>ts cid. console (snd (run_analyze E wk w)) \<noteq> []
          \<and> last (console (snd (run_analyze E wk w)))
             = \<lparr> msg_agentId = worker_id wk, msg_type = FINDINGS,
                 payload = FindingsPayload f, timestamp = ts, correlationId = cid \<rparr>)
     \<and> guarded_analyze (a\<lparr>analyze := Fulfilled f\<rparr>) = Fulfilled f"
proof (cases wk)
  case (DiscoveryWorker page)
  then have "discovery_failure page = Some e" using assms(3) by simp
  then have "\<And>s. fst (discovery_try E page s) = Rejected e"
    using discovery_try_fails [OF assms(1)] by blast
  then show ?thesis
    using worker_run_caught [OF assms(1,2), of "discovery_try E page" discovery_id
        "''Mapping page structure...''" 10 "1 / 2" discovery_initial w]
    unfolding DiscoveryWorker run_analyze.simps worker_id.simps caught_confidence.simps
      discovery_analyze_eq fst_conv snd_conv
    by (auto simp: guarded_analyze_def)
next
  case (AccessibilityWorker page ai)
  then have "accessibility_failure page = Some e" using assms(3) by simp
  then have "\<And>s. fst (accessibility_try E page ai s) = Rejected e"
    using accessibility_try_fails [OF assms(1)] by blast
  then show ?thesis
    using worker_run_caught [OF assms(1,2), of "accessibility_try E page ai" accessibility_id
        "''Starting accessibility audit...''" 5 "3 / 10" accessibility_initial w]
    unfolding AccessibilityWorker run_analyze.simps worker_id.simps caught_confidence.simps
      accessibility_analyze_eq fst_conv snd_conv
    by (auto simp: guarded_analyze_def)
next
  case (PerformanceWorker page ai)
  then have "performance_failure page = Some e" using assms(3) by simp
  then have "\<And>s. fst (performance_try E page ai s) = Rejected e"
    using performance_try_fails [OF assms(1)] by blast
  then show ?thesis
    using worker_run_caught [OF assms(1,2), of "performance_try E page ai" performance_id
        "''Measuring performance metrics...''" 10 "4 / 10" performance_initial w]
    unfolding PerformanceWorker run_analyze.simps worker_id.simps caught_confidence.simps
      performance_analyze_eq fst_conv snd_conv
    by (auto simp: guarded_analyze_def)
next
  case (SecurityWorker page ai)
  then have "security_failure page = Some e" using assms(3) by simp
  then have "\<And>s. fst (security_try E page ai s) = Rejected e"
    using security_try_fails [OF assms(1)] by blast
  then show ?thesis
    using worker_run_caught [OF assms(1,2), of "security_try E page ai" security_id
        "''Starting security scan...''" 10 "3 / 10" security_initial w]
    unfolding SecurityWorker run_analyze.simps worker_id.simps caught_confidence.simps
      security_analyze_eq fst_conv snd_conv
    by (auto simp: guarded_analyze_def)
next
  case (UXWorker page ai)
  then have "ux_failure page = Some e" using assms(3) by simp
  then have "\<And>s. fst (ux_try E page ai s) = Rejected e"
    using ux_try_fails [OF assms(1)] by blast
  then show ?thesis
    using worker_run_caught [OF assms(1,2), of "ux_try E page ai" ux_id
        "''Analyzing UX and design...''" 10 "3 / 10" ux_initial w]
    unfolding UXWorker run_analyze.simps worker_id.simps caught_confidence.simps
      ux_analyze_eq fst_conv snd_conv
    by (auto simp: guarded_analyze_def)
qed

theorem internal_error_is_caught_by_worker_witness:
  "(\<exists>f. fst (discovery_analyze quiet_env broken_discovery_page (listening [0])) = Fulfilled f
      \<and> confidence f = 1 / 2
      \<and> (\<exists>older. suggestions f = older @ [''Error during analysis: boom'']))
   \<and> (\<exists>f. fst (accessibility_analyze quiet_env broken_accessibility_page (callAI no_credential)
               (listening [0])) = Fulfilled f
      \<and> confidence f = 3 / 10
      \<and> (\<exists>older. suggestions f = older @ [''Error during analysis: boom'']))
   \<and> (\<exists>f. fst (ux_analyze quiet_env broken_ux_page (callAI no_credential) (listening [0]))
           = Fulfilled f
      \<and> confidence f = 3 / 10
      \<and> (\<exists>older. suggestions f = older @ [''Error during analysis: boom'']))"
proof -
  have e: "error_message (ErrorObj ''boom'') = Inr ''boom''" by simp
  have d: "worker_failure (DiscoveryWorker broken_discovery_page) = Some (ErrorObj ''boom'')"
    by (simp add: discovery_failure_def broken_discovery_page_def sound_discovery_page_def)
  have a: "worker_failure (AccessibilityWorker broken_accessibility_page (callAI no_credential))
      = Some (ErrorObj ''boom'')"
    by (simp add: accessibility_failure_def broken_accessibility_page_def
        sound_accessibility_page_def)
  have u: "worker_failure (UXWorker broken_ux_page (callAI no_credential))
      = Some (ErrorObj ''boom'')"
    by (simp add: ux_failure_def broken_ux_page_def sound_ux_page_def)
  note td = internal_error_is_caught_by_worker [OF never_raises_quiet e d,
      of "listening [0]" worker_A]
  note ta = internal_error_is_caught_by_worker [OF never_raises_quiet e a,
      of "listening [0]" worker_A]
  note tu = internal_error_is_caught_by_worker [OF never_raises_quiet e u,
      of "listening [0]" worker_A]
  have "\<exists>f. fst (discovery_analyze quiet_env broken_discovery_page (listening [0])) = Fulfilled f
      \<and> confidence f = 1 / 2
      \<and> (\<exists>older. suggestions f = older @ [''Error during analysis: boom''])"
    using td by simp blast
  moreover have "\<exists>f. fst (accessibility_analyze quiet_env broken_accessibility_page
               (callAI no_credential) (listening [0])) = Fulfilled f
      \<and> confidence f = 3 / 10
      \<and> (\<exists>older. suggestions f = older @ [''Error during analysis: boom''])"
    using ta by simp blast
  moreover have "\<exists>f. fst (ux_analyze quiet_env broken_ux_page (callAI no_credential)
               (listening [0])) = Fulfilled f
      \<and> confidence f = 3 / 10
      \<and> (\<exists>older. suggestions f = older @ [''Error during analysis: boom''])"
    using tu by simp blast
  ultimately show ?thesis by (intro conjI)
qed

section \<open>Properties of the Coordinator\<close>

lemma then_do_Fulfilled:
  "then_do act rest s = (Fulfilled y, s'') \<Longrightarrow>
   \<exists>x s'. act s = (Fulfilled x, s') \<and> rest x s' = (Fulfilled y, s'')"
  by (cases "act s"; cases "fst (act s)") (auto simp: then_do_def)

lemma dispatch_Cons:
  "dispatch E n i (a # rest) w =
     ((case fst (updateProgress E coordinator_id (running_label a) (dispatch_progress i n) w) of
         Fulfilled u \<Rightarrow> guarded_analyze a
       | Rejected e \<Rightarrow> Rejected e
       | Pending \<Rightarrow> Pending)
      # fst (dispatch E n (Suc i) rest
               (snd (updateProgress E coordinator_id (running_label a) (dispatch_progress i n) w))),
      snd (dispatch E n (Suc i) rest
               (snd (updateProgress E coordinator_id (running_label a) (dispatch_progress i n) w))))"
  by (simp split: prod.splits)

declare dispatch.simps(2) [simp del]

lemma length_dispatch: "length (fst (dispatch E n i agents w)) = length agents"
  by (induction agents arbitrary: i w) (simp_all add: dispatch_Cons)

lemma dispatch_nth:
  "j < length agents \<Longrightarrow>
   fst (dispatch E n i agents w) ! j = guarded_analyze (agents ! j)
   \<or> (\<exists>e. fst (dispatch E n i agents w) ! j = Rejected e)
   \<or> fst (dispatch E n i agents w) ! j = Pending"
proof (induction agents arbitrary: i w j)
  case Nil
  then show ?case by simp
next
  case (Cons a rest)
  show ?case
  proof (cases j)
    case 0
    then show ?thesis
      by (cases "fst (updateProgress E coordinator_id (running_label a) (dispatch_progress i n) w)")
         (simp_all add: dispatch_Cons)
  next
    case (Suc k)
    then have "k < length rest" using Cons.prems by simp
    then show ?thesis using Cons.IH [of k] Suc by (simp add: dispatch_Cons)
  qed
qed

lemma dispatch_quiet:
  "never_raises E \<Longrightarrow> fst (dispatch E n i agents w) = map guarded_analyze agents"
  by (induction agents arbitrary: i w) (simp_all add: dispatch_Cons updateProgress_quiet)

lemma dispatch_trace:
  "progress_of coordinator_id (snd (dispatch E n i agents w))
     = progress_of coordinator_id w @ map (\<lambda>j. dispatch_progress j n) [i..<i + length agents]"
proof (induction agents arbitrary: i w)
  case Nil
  then show ?case by simp
next
  case (Cons a rest)
  have u: "[i..<i + length (a # rest)] = i # [Suc i..<Suc i + length rest]"
    by (simp del: upt_Suc add: upt_conv_Cons)
  show ?case
    unfolding u by (simp add: dispatch_Cons Cons.IH progress_of_updateProgress del: upt_Suc)
qed

lemma promise_all_Fulfilled:
  "promise_all ps = Fulfilled xs \<Longrightarrow> ps = map Fulfilled xs"
  by (induction ps arbitrary: xs) (auto split: promise.splits)

lemma promise_all_map_Fulfilled: "promise_all (map Fulfilled xs) = Fulfilled xs"
  by (induction xs) auto


lemma run_agents_eq:
  "run_agents E agents w =
     (promise_all (fst (dispatch E (length agents) 0 agents w)),
      snd (dispatch E (length agents) 0 agents w))"
  by (simp add: run_agents_def split: prod.splits)

lemma run_agents_Fulfilled:
  assumes "run_agents E agents w = (Fulfilled found, w')"
  shows "length found = length agents"
    and "\<forall>j<length agents. guarded_analyze (agents ! j) = Fulfilled (found ! j)"
proof -
  let ?ps = "fst (dispatch E (length agents) 0 agents w)"
  have "promise_all ?ps = Fulfilled found"
    using assms by (simp add: run_agents_eq)
  then have ps: "?ps = map Fulfilled found" by (rule promise_all_Fulfilled)
  then have "length ?ps = length found" by simp
  then show len: "length found = length agents" by (simp add: length_dispatch)
  show "\<forall>j<length agents. guarded_analyze (agents ! j) = Fulfilled (found ! j)"
  proof (intro allI impI)
    fix j assume j: "j < length agents"
    then have "?ps ! j = Fulfilled (found ! j)" using ps len by simp
    then show "guarded_analyze (agents ! j) = Fulfilled (found ! j)"
      using dispatch_nth [OF j, of E "length agents" 0 w] by auto
  qed
qed

lemma run_agents_trace:
  "progress_of coordinator_id (snd (run_agents E agents w))
     = progress_of coordinator_id w
       @ map (\<lambda>j. dispatch_progress j (length agents)) [0..<length agents]"
  using dispatch_trace [of E "length agents" 0 agents w]
  by (simp add: run_agents_eq)

lemma world_clock_eq: "world_clock E w = (Fulfilled (clock E (clock_reads w)), snd (date_now E w))"
  by (simp add: world_clock_def date_now_def)

text \<open>A completed run of \<open>orchestrate\<close>, step by step.\<close>

lemma orchestrate_Fulfilled:
  assumes "orchestrate E ai agents w = (Fulfilled r, w')"
  obtains w1 w2 w3 w4 where
      "updateProgress E coordinator_id ''Spawning specialized agents...'' 5 w = (Fulfilled (), w1)"
      "run_agents E agents (snd (date_now E w1)) = (Fulfilled (allFindings r), w2)"
      "updateProgress E coordinator_id ''Synthesizing findings...'' 75 (snd (date_now E w2))
        = (Fulfilled (), w3)"
      "updateProgress E coordinator_id ''Generating executive summary...'' 90 w3
        = (Fulfilled (), w4)"
      "generateExecutiveSummary (synthesize agents (allFindings r)) ai
        = Fulfilled (executiveSummary r)"
      "updateProgress E coordinator_id ''Complete!'' 100 w4 = (Fulfilled (), w')"
      "synthesizedReport r = synthesize agents (allFindings r)"
proof -
  from assms obtain u1 w1 where
    s1: "updateProgress E coordinator_id ''Spawning specialized agents...'' 5 w = (Fulfilled u1, w1)"
    and r1: "then_do (world_clock E) (\<lambda>startTime.
     then_do (run_agents E agents) (\<lambda>found.
     then_do (world_clock E) (\<lambda>endTime.
     then_do (updateProgress E coordinator_id ''Synthesizing findings...'' 75) (\<lambda>_.
     then_do (updateProgress E coordinator_id ''Generating executive summary...'' 90) (\<lambda>_.
     then_do (await (generateExecutiveSummary (synthesize agents found) ai)) (\<lambda>summaryText.
     then_do (updateProgress E coordinator_id ''Complete!'' 100) (\<lambda>_.
     returns \<lparr> executiveSummary = summaryText, allFindings = found,
               synthesizedReport = synthesize agents found \<rparr>))))))) w1 = (Fulfilled r, w')"
    unfolding orchestrate_def by (blast dest: then_do_Fulfilled)
  from r1 obtain t0 wa where
    s2: "world_clock E w1 = (Fulfilled t0, wa)"
    and r2: "then_do (run_agents E agents) (\<lambda>found.
     then_do (world_clock E) (\<lambda>endTime.
     then_do (updateProgress E coordinator_id ''Synthesizing findings...'' 75) (\<lambda>_.
     then_do (updateProgress E coordinator_id ''Generating executive summary...'' 90) (\<lambda>_.
     then_do (await (generateExecutiveSummary (synthesize agents found) ai)) (\<lambda>summaryText.
     then_do (updateProgress E coordinator_id ''Complete!'' 100) (\<lambda>_.
     returns \<lparr> executiveSummary = summaryText, allFindings = found,
               synthesizedReport = synthesize agents found \<rparr>)))))) wa = (Fulfilled r, w')"
    by (blast dest: then_do_Fulfilled)
  have wa: "wa = snd (date_now E w1)" using s2 by (simp add: world_clock_eq)
  from r2 obtain found w2 where
    s3: "run_agents E agents wa = (Fulfilled found, w2)"
    and r3: "then_do (world_clock E) (\<lambda>endTime.
     then_do (updateProgress E coordinator_id ''Synthesizing findings...'' 75) (\<lambda>_.
     then_do (updateProgress E coordinator_id ''Generating executive summary...'' 90) (\<lambda>_.
     then_do (await (generateExecutiveSummary (synthesize agents found) ai)) (\<lambda>summaryText.
     then_do (updateProgress E coordinator_id ''Complete!'' 100) (\<lambda>_.
     returns \<lparr> executiveSummary = summaryText, allFindings = found,
               synthesizedReport = synthesize agents found \<rparr>))))) w2 = (Fulfilled r, w')"
    by (blast dest: then_do_Fulfilled)
  from r3 obtain t1 wb where
    s4: "world_clock E w2 = (Fulfilled t1, wb)"
    and r4: "then_do (updateProgress E coordinator_id ''Synthesizing findings...'' 75) (\<lambda>_.
     then_do (updateProgress E coordinator_id ''Generating executive summary...'' 90) (\<lambda>_.
     then_do (await (generateExecutiveSummary (synthesize agents found) ai)) (\<lambda>summaryText.
     then_do (updateProgress E coordinator_id ''Complete!'' 100) (\<lambda>_.
     returns \<lparr> executiveSummary = summaryText, allFindings = found,
               synthesizedReport = synthesize agents found \<rparr>)))) wb = (Fulfilled r, w')"
    by (blast dest: then_do_Fulfilled)
  have wb: "wb = snd (date_now E w2)" using s4 by (simp add: world_clock_eq)
  from r4 obtain u3 w3 where
    s5: "updateProgress E coordinator_id ''Synthesizing findings...'' 75 wb = (Fulfilled u3, w3)"
    and r5: "then_do (updateProgress E coordinator_id ''Generating executive summary...'' 90) (\<lambda>_.
     then_do (await (generateExecutiveSummary (synthesize agents found) ai)) (\<lambda>summaryText.
     then_do (updateProgress E coordinator_id ''Complete!'' 100) (\<lambda>_.
     returns \<lparr> executiveSummary = summaryText, allFindings = found,
               synthesizedReport = synthesize agents found \<rparr>))) w3 = (Fulfilled r, w')"
    by (blast dest: then_do_Fulfilled)
  from r5 obtain u4 w4 where
    s6: "updateProgress E coordinator_id ''Generating executive summary...'' 90 w3 = (Fulfilled u4, w4)"
    and r6: "then_do (await (generateExecutiveSummary (synthesize agents found) ai)) (\<lambda>summaryText.
     then_do (updateProgress E coordinator_id ''Complete!'' 100) (\<lambda>_.
     returns \<lparr> executiveSummary = summaryText, allFindings = found,
               synthesizedReport = synthesize agents found \<rparr>)) w4 = (Fulfilled r, w')"
    by (blast dest: then_do_Fulfilled)
  from r6 obtain summ wc where
    s7: "await (generateExecutiveSummary (synthesize agents found) ai) w4 = (Fulfilled summ, wc)"
    and r7: "then_do (updateProgress E coordinator_id ''Complete!'' 100) (\<lambda>_.
     returns \<lparr> executiveSummary = summ, allFindings = found,
               synthesizedReport = synthesize agents found \<rparr>) wc = (Fulfilled r, w')"
    by (blast dest: then_do_Fulfilled)
  have wc: "wc = w4" "generateExecutiveSummary (synthesize agents found) ai = Fulfilled summ"
    using s7 by (simp_all add: await_def)
  from r7 obtain u5 w5 where
    s8: "updateProgress E coordinator_id ''Complete!'' 100 wc = (Fulfilled u5, w5)"
    and r8: "returns \<lparr> executiveSummary = summ, allFindings = found,
               synthesizedReport = synthesize agents found \<rparr> w5 = (Fulfilled r, w')"
    by (blast dest: then_do_Fulfilled)
  have r: "r = \<lparr> executiveSummary = summ, allFindings = found,
               synthesizedReport = synthesize agents found \<rparr>" "w5 = w'"
    using r8 by (simp_all add: returns_def)
  show ?thesis
  proof (rule that [of w1 w2 w3 w4])
    show "updateProgress E coordinator_id ''Spawning specialized agents...'' 5 w = (Fulfilled (), w1)"
      using s1 by simp
    show "run_agents E agents (snd (date_now E w1)) = (Fulfilled (allFindings r), w2)"
      using s3 wa r by simp
    show "updateProgress E coordinator_id ''Synthesizing findings...'' 75 (snd (date_now E w2))
        = (Fulfilled (), w3)"
      using s5 wb by simp
    show "updateProgress E coordinator_id ''Generating executive summary...'' 90 w3
        = (Fulfilled (), w4)"
      using s6 by simp
    show "generateExecutiveSummary (synthesize agents (allFindings r)) ai
        = Fulfilled (executiveSummary r)"
      using wc r by simp
    show "updateProgress E coordinator_id ''Complete!'' 100 w4 = (Fulfilled (), w')"
      using s8 wc r by simp
    show "synthesizedReport r = synthesize agents (allFindings r)"
      using r by simp
  qed
qed


text \<open>Running \<open>orchestrate\<close> forward on a bus where no listener throws.\<close>

lemma then_do_unit:
  "fst (act s) = Fulfilled () \<Longrightarrow> then_do act rest s = rest () (snd (act s))"
  by (cases "act s") (simp add: then_do_def)

lemma then_do_world_clock:
  "then_do (world_clock E) rest w = rest (clock E (clock_reads w)) (snd (date_now E w))"
  by (simp add: then_do_def world_clock_eq)

lemma then_do_run_agents:
  "then_do (run_agents E agents) rest w =
     (case promise_all (fst (dispatch E (length agents) 0 agents w)) of
        Pending \<Rightarrow> (Pending, snd (dispatch E (length agents) 0 agents w))
      | Rejected e \<Rightarrow> (Rejected e, snd (dispatch E (length agents) 0 agents w))
      | Fulfilled found \<Rightarrow> rest found (snd (dispatch E (length agents) 0 agents w)))"
  by (simp add: then_do_def run_agents_eq split: promise.splits)

lemma then_do_await:
  "then_do (await p) rest s =
     (case p of Pending \<Rightarrow> (Pending, s) | Rejected e \<Rightarrow> (Rejected e, s) | Fulfilled x \<Rightarrow> rest x s)"
  by (simp add: then_do_def await_def split: promise.splits)

lemma orchestrate_quiet:
  assumes "never_raises E"
      and "promise_all (map guarded_analyze agents) = Fulfilled found"
      and "generateExecutiveSummary (synthesize agents found) ai = Fulfilled summ"
  shows "fst (orchestrate E ai agents w)
     = Fulfilled \<lparr> executiveSummary = summ, allFindings = found,
                   synthesizedReport = synthesize agents found \<rparr>"
  using assms
  by (simp add: orchestrate_def then_do_unit then_do_world_clock then_do_run_agents
      then_do_await updateProgress_quiet dispatch_quiet returns_def)

lemma orchestrate_trace:
  assumes "orchestrate E ai agents w = (Fulfilled r, w')"
  shows "progress_of coordinator_id w'
     = progress_of coordinator_id w
       @ 5 # map (\<lambda>j. dispatch_progress j (length agents)) [0..<length agents] @ [75, 90, 100]"
proof -
  obtain w1 w2 w3 w4 where
    s1: "updateProgress E coordinator_id ''Spawning specialized agents...'' 5 w = (Fulfilled (), w1)"
    and s2: "run_agents E agents (snd (date_now E w1)) = (Fulfilled (allFindings r), w2)"
    and s3: "updateProgress E coordinator_id ''Synthesizing findings...'' 75 (snd (date_now E w2))
        = (Fulfilled (), w3)"
    and s4: "updateProgress E coordinator_id ''Generating executive summary...'' 90 w3
        = (Fulfilled (), w4)"
    and s5: "updateProgress E coordinator_id ''Complete!'' 100 w4 = (Fulfilled (), w')"
    using assms by (rule orchestrate_Fulfilled)
  have p1: "progress_of coordinator_id w1 = progress_of coordinator_id w @ [5]"
    using progress_of_updateProgress [of coordinator_id E "''Spawning specialized agents...''" 5 w]
    unfolding s1 by simp
  have p2: "progress_of coordinator_id w2 = progress_of coordinator_id w1
      @ map (\<lambda>j. dispatch_progress j (length agents)) [0..<length agents]"
    using run_agents_trace [of E agents "snd (date_now E w1)"]
    unfolding s2 by (simp add: progress_of_date_now)
  have p3: "progress_of coordinator_id w3 = progress_of coordinator_id w2 @ [75]"
    using progress_of_updateProgress [of coordinator_id E "''Synthesizing findings...''" 75
        "snd (date_now E w2)"]
    unfolding s3 by (simp add: progress_of_date_now)
  have p4: "progress_of coordinator_id w4 = progress_of coordinator_id w3 @ [90]"
    using progress_of_updateProgress [of coordinator_id E "''Generating executive summary...''" 90 w3]
    unfolding s4 by simp
  have p5: "progress_of coordinator_id w' = progress_of coordinator_id w4 @ [100]"
    using progress_of_updateProgress [of coordinator_id E "''Complete!''" 100 w4]
    unfolding s5 by simp
  show ?thesis
    unfolding p5 p4 p3 p2 p1 by simp
qed

lemma dispatch_progress_bounds:
  assumes "j < n"
  shows "10 \<le> dispatch_progress j n" "dispatch_progress j n < 70"
proof -
  define x :: rat where "x = of_nat j / of_nat n"
  have d: "dispatch_progress j n = 10 + x * 60"
    by (simp only: dispatch_progress_def x_def)
  have n: "0 < (of_nat n :: rat)" using assms by simp
  have "(of_nat j :: rat) < of_nat n" using assms by simp
  then have "x < 1" unfolding x_def using n by simp
  then show "dispatch_progress j n < 70" unfolding d by linarith
  have "0 \<le> x" unfolding x_def by simp
  then show "10 \<le> dispatch_progress j n" unfolding d by linarith
qed

lemma dispatch_progress_mono:
  "i \<le> j \<Longrightarrow> dispatch_progress i n \<le> dispatch_progress j n"
  by (simp add: dispatch_progress_def divide_right_mono)

lemma sorted_dispatch: "sorted (map (\<lambda>j. dispatch_progress j n) [0..<n])"
  by (simp add: sorted_iff_nth_mono dispatch_progress_mono)

lemma sorted_coordinator_progress:
  "sorted (5 # map (\<lambda>j. dispatch_progress j n) [0..<n] @ [75, 90, 100])"
proof -
  have b: "5 \<le> dispatch_progress j n \<and> dispatch_progress j n \<le> 75" if "j < n" for j
    using dispatch_progress_bounds [OF that] by linarith
  have "\<forall>x\<in>set (map (\<lambda>j. dispatch_progress j n) [0..<n]). 5 \<le> x \<and> x \<le> 75"
    using b by simp
  moreover have "sorted [75, 90, 100 :: rat]" by simp
  ultimately show ?thesis
    using sorted_dispatch [of n] unfolding sorted_append sorted_simps(2) by fastforce
qed


lemma issues_prioritized:
  assumes "f \<in> set fs" "i \<in> set (issues f)"
  shows "tag_issue agents f i \<in> set (prioritizedIssues (synthesize agents fs))"
  using assms by (auto simp: prioritized_eq set_array_sort flatten_issues_def)

lemma length_prioritized:
  "length (prioritizedIssues (synthesize agents fs)) = sum_list (map (\<lambda>f. length (issues f)) fs)"
  by (simp add: prioritized_eq length_array_sort length_flatten_issues)

lemma scenario_guarded:
  "promise_all (map guarded_analyze [worker_A, worker_X, worker_B])
     = Fulfilled [findings_A, degraded worker_X ''boom'', findings_B]"
  by (simp add: guarded_analyze_def worker_A_def worker_X_def worker_B_def)

lemma scenario_summary:
  "generateExecutiveSummary syn (callAI no_credential) = Fulfilled (fallback_summary syn)"
  by (simp add: generateExecutiveSummary_def callAI_without_key no_credential_def)

lemma scenario_run:
  "fst (orchestrate quiet_env (callAI no_credential) [worker_A, worker_X, worker_B] (listening [0]))
     = Fulfilled
         \<lparr> executiveSummary = fallback_summary (synthesize [worker_A, worker_X, worker_B]
             [findings_A, degraded worker_X ''boom'', findings_B]),
           allFindings = [findings_A, degraded worker_X ''boom'', findings_B],
           synthesizedReport = synthesize [worker_A, worker_X, worker_B]
             [findings_A, degraded worker_X ''boom'', findings_B] \<rparr>"
  by (rule orchestrate_quiet [OF never_raises_quiet scenario_guarded scenario_summary])

lemma orchestrate_quiet_rejected:
  assumes "never_raises E"
      and "promise_all (map guarded_analyze agents) = Rejected e"
  shows "fst (orchestrate E ai agents w) = Rejected e"
  using assms
  by (simp add: orchestrate_def then_do_unit then_do_world_clock then_do_run_agents
      updateProgress_quiet dispatch_quiet)

lemma scenario_trace:
  "progress_of coordinator_id
     (snd (orchestrate quiet_env (callAI no_credential) [worker_A, worker_X, worker_B]
            (listening [0])))
     = [5, 10, 30, 50, 75, 90, 100]"
proof -
  obtain r w' where
    run: "orchestrate quiet_env (callAI no_credential) [worker_A, worker_X, worker_B] (listening [0])
       = (Fulfilled r, w')"
    using scenario_run
    by (cases "orchestrate quiet_env (callAI no_credential) [worker_A, worker_X, worker_B]
          (listening [0])") auto
  have "progress_of coordinator_id (listening [0]) = []"
    by (simp add: progress_of_def listening_simps)
  then show ?thesis
    using orchestrate_trace [OF run] unfolding run
    by (simp add: dispatch_progress_def upt_rec)
qed


lemma discovery_sound_fulfils:
  "\<exists>f. fst (discovery_analyze quiet_env sound_discovery_page (listening [0])) = Fulfilled f"
proof -
  have "completed_successfully (1 / 2)
      (fst (discovery_analyze quiet_env sound_discovery_page (listening [0])))"
    by (simp add: discovery_analyze_def discovery_try_def run_defs listening_def empty_world_def
        quiet_env_def sound_discovery_page_def completed_successfully_def discovery_initial_def)
  then show ?thesis
    by (auto simp: completed_successfully_def split: promise.splits)
qed

lemma quiet_trace:
  assumes "promise_all (map guarded_analyze agents) = Fulfilled found"
  shows "progress_of coordinator_id
      (snd (orchestrate quiet_env (callAI no_credential) agents (listening [0])))
     = 5 # map (\<lambda>j. dispatch_progress j (length agents)) [0..<length agents] @ [75, 90, 100]"
proof -
  have "fst (orchestrate quiet_env (callAI no_credential) agents (listening [0]))
      = Fulfilled \<lparr> executiveSummary = fallback_summary (synthesize agents found),
           allFindings = found, synthesizedReport = synthesize agents found \<rparr>"
    by (rule orchestrate_quiet [OF never_raises_quiet assms scenario_summary])
  then obtain r w' where
    run: "orchestrate quiet_env (callAI no_credential) agents (listening [0]) = (Fulfilled r, w')"
    by (cases "orchestrate quiet_env (callAI no_credential) agents (listening [0])") auto
  have "progress_of coordinator_id (listening [0]) = []"
    by (simp add: progress_of_def listening_simps)
  then show ?thesis
    using orchestrate_trace [OF run] unfolding run by simp
qed

text \<open>
  C1. Whenever \<open>orchestrate\<close> resolves, \<open>allFindings\<close> has one entry per registered
  worker, in registration order: the \<open>j\<close>-th entry is what the \<open>j\<close>-th worker's \<open>analyze\<close>
  fulfilled with, or the record put in place of its rejection. When every worker
  succeeds, the entries are the workers' own findings. The number of prioritized issues
  is the sum of the numbers of issues of all findings.
\<close>

theorem orchestrate_one_findings_per_worker:
  assumes "orchestrate E ai agents w = (Fulfilled r, w')"
  shows "length (allFindings r) = length agents
     \<and> (\<forall>j<length agents. guarded_analyze (agents ! j) = Fulfilled (allFindings r ! j))
     \<and> ((\<forall>a\<in>set agents. \<exists>f. analyze a = Fulfilled f)
          \<longrightarrow> map analyze agents = map Fulfilled (allFindings r))
     \<and> length (prioritizedIssues (synthesizedReport r))
         = sum_list (map (\<lambda>f. length (issues f)) (allFindings r))"
proof -
  obtain w1 w2 where run: "run_agents E agents (snd (date_now E w1)) = (Fulfilled (allFindings r), w2)"
    and syn: "synthesizedReport r = synthesize agents (allFindings r)"
    using assms by (rule orchestrate_Fulfilled)
  have len: "length (allFindings r) = length agents"
    using run by (rule run_agents_Fulfilled(1))
  have each: "\<forall>j<length agents. guarded_analyze (agents ! j) = Fulfilled (allFindings r ! j)"
    using run by (rule run_agents_Fulfilled(2))
  have "map analyze agents = map Fulfilled (allFindings r)"
    if all: "\<forall>a\<in>set agents. \<exists>f. analyze a = Fulfilled f"
  proof (rule nth_equalityI)
    show "length (map analyze agents) = length (map Fulfilled (allFindings r))"
      using len by simp
    fix j assume "j < length (map analyze agents)"
    then have j: "j < length agents" by simp
    then obtain f where "analyze (agents ! j) = Fulfilled f" using all by (meson nth_mem)
    then have "guarded_analyze (agents ! j) = analyze (agents ! j)"
      by (simp add: guarded_analyze_def)
    then show "map analyze agents ! j = map Fulfilled (allFindings r) ! j"
      using each j len by simp
  qed
  then show ?thesis
    using len each by (simp add: syn length_prioritized)
qed

theorem orchestrate_one_findings_per_worker_witness:
  "\<exists>r w'. orchestrate quiet_env (callAI no_credential) [worker_A, worker_X, worker_B] (listening [0])
       = (Fulfilled r, w')
     \<and> length (allFindings r) = 3
     \<and> length (prioritizedIssues (synthesizedReport r)) = 5"
proof -
  obtain r w' where
    run: "orchestrate quiet_env (callAI no_credential) [worker_A, worker_X, worker_B] (listening [0])
       = (Fulfilled r, w')"
    and r: "allFindings r = [findings_A, degraded worker_X ''boom'', findings_B]"
    using scenario_run
    by (cases "orchestrate quiet_env (callAI no_credential) [worker_A, worker_X, worker_B]
          (listening [0])") auto
  note t = orchestrate_one_findings_per_worker [OF run]
  have "length (allFindings r) = 3" using t by simp
  moreover have "length (prioritizedIssues (synthesizedReport r)) = 5"
    using t unfolding r
    by (simp add: findings_A_def findings_B_def scenario_findings_def degraded_def)
  ultimately show ?thesis using run by blast
qed

text \<open>
  C2, as the specification states it, fails. For a worker rejecting with
  \<open>new Error('boom')\<close> the suggestion of the substituted record is
  \<open>Agent failed: boom\<close>, not \<open>Worker failed: boom\<close>. And \<open>orchestrate\<close> can reject: for a
  worker rejecting with \<open>undefined\<close>, reading \<open>error.message\<close> in the \<open>catch\<close> block
  throws a \<open>TypeError\<close>, which rejects the promise given to \<open>Promise.all\<close>.
\<close>

theorem rejected_worker_suggestion_text:
  "map_promise (\<lambda>r. suggestions (allFindings r ! 1))
     (fst (orchestrate quiet_env (callAI no_credential) [worker_A, worker_X, worker_B]
            (listening [0])))
     = Fulfilled [''Agent failed: boom'']
   \<and> [''Agent failed: boom''] \<noteq> [''Worker failed: boom'']
   \<and> fst (orchestrate quiet_env (callAI no_credential) [worker_A, worker_undefined, worker_B]
            (listening [0]))
     = Rejected type_error"
proof -
  have "promise_all (map guarded_analyze [worker_A, worker_undefined, worker_B])
      = Rejected type_error"
    by (simp add: guarded_analyze_def worker_A_def worker_undefined_def worker_B_def)
  then have "fst (orchestrate quiet_env (callAI no_credential)
      [worker_A, worker_undefined, worker_B] (listening [0])) = Rejected type_error"
    using never_raises_quiet by (simp add: orchestrate_quiet_rejected)
  then show ?thesis
    by (simp add: scenario_run degraded_def)
qed

text \<open>
  C2, amended. Let no listener on the bus throw and let the summary request settle. If
  the \<open>analyze\<close> of exactly one worker, the \<open>k\<close>-th, rejects with an error that has a
  message \<open>m\<close>, and all others fulfil, then \<open>orchestrate\<close> resolves with one entry per
  worker; the \<open>k\<close>-th entry has confidence 0, no issues and the single suggestion
  \<open>Agent failed: m\<close>; every other entry is its worker's findings, and each of their
  issues is among the prioritized issues.
\<close>


theorem one_rejection_is_isolated:
  assumes "never_raises E" and "ai \<noteq> Pending"
      and "k < length agents" and "analyze (agents ! k) = Rejected e"
      and "error_message e = Inr m"
      and "\<forall>j<length agents. j \<noteq> k \<longrightarrow> (\<exists>f. analyze (agents ! j) = Fulfilled f)"
  shows "\<exists>r w'. orchestrate E ai agents w = (Fulfilled r, w')
     \<and> length (allFindings r) = length agents
     \<and> confidence (allFindings r ! k) = 0
     \<and> issues (allFindings r ! k) = []
     \<and> suggestions (allFindings r ! k) = [''Agent failed: '' @ m]
     \<and> (\<forall>j<length agents. j \<noteq> k \<longrightarrow>
           analyze (agents ! j) = Fulfilled (allFindings r ! j)
           \<and> (\<forall>i\<in>set (issues (allFindings r ! j)).
                 tag_issue agents (allFindings r ! j) i
                   \<in> set (prioritizedIssues (synthesizedReport r))))"
proof -
  define g where "g a = (case analyze a of Fulfilled f \<Rightarrow> f | _ \<Rightarrow> degraded a m)" for a
  define found where "found = map g agents"
  have len: "length found = length agents" by (simp add: found_def)
  have gk: "found ! k = degraded (agents ! k) m"
    using assms(3,4) by (simp add: found_def g_def)
  have gj: "analyze (agents ! j) = Fulfilled (found ! j)" if "j < length agents" "j \<noteq> k" for j
    using that assms(6) by (auto simp: found_def g_def)
  have "guarded_analyze (agents ! j) = Fulfilled (found ! j)" if "j < length agents" for j
  proof (cases "j = k")
    case True
    then show ?thesis using assms(4,5) gk by (simp add: guarded_analyze_def)
  next
    case False
    then show ?thesis using gj [OF that] by (simp add: guarded_analyze_def)
  qed
  then have "map guarded_analyze agents = map Fulfilled found"
    using len by (intro nth_equalityI) simp_all
  then have all: "promise_all (map guarded_analyze agents) = Fulfilled found"
    by (simp add: promise_all_map_Fulfilled)
  obtain summ where summ: "generateExecutiveSummary (synthesize agents found) ai = Fulfilled summ"
    using assms(2) by (cases ai) (simp_all add: generateExecutiveSummary_def)
  let ?r = "\<lparr> executiveSummary = summ, allFindings = found,
              synthesizedReport = synthesize agents found \<rparr>"
  have "fst (orchestrate E ai agents w) = Fulfilled ?r"
    using assms(1) all summ by (rule orchestrate_quiet)
  then obtain w' where run: "orchestrate E ai agents w = (Fulfilled ?r, w')"
    by (cases "orchestrate E ai agents w") simp
  have others: "\<forall>j<length agents. j \<noteq> k \<longrightarrow>
           analyze (agents ! j) = Fulfilled (found ! j)
           \<and> (\<forall>i\<in>set (issues (found ! j)).
                 tag_issue agents (found ! j) i \<in> set (prioritizedIssues (synthesize agents found)))"
    using gj len by (auto intro!: issues_prioritized)
  show ?thesis
    using run len gk others
    by (intro exI [of _ ?r] exI [of _ w']) (simp add: degraded_def)
qed

theorem one_rejection_is_isolated_witness:
  "\<exists>r w'. orchestrate quiet_env (callAI no_credential) [worker_A, worker_X, worker_B] (listening [0])
       = (Fulfilled r, w')
     \<and> length (allFindings r) = 3
     \<and> confidence (allFindings r ! 1) = 0
     \<and> issues (allFindings r ! 1) = []
     \<and> suggestions (allFindings r ! 1) = [''Agent failed: boom'']
     \<and> analyze worker_A = Fulfilled (allFindings r ! 0)
     \<and> analyze worker_B = Fulfilled (allFindings r ! 2)
     \<and> tag_issue [worker_A, worker_X, worker_B] findings_B (scenario_issue ''B.medium'' Medium)
          \<in> set (prioritizedIssues (synthesizedReport r))"
proof -
  have ai: "callAI no_credential \<noteq> Pending"
    by (simp add: callAI_without_key no_credential_def)
  have k: "(1::nat) < length [worker_A, worker_X, worker_B]" by simp
  have x: "analyze ([worker_A, worker_X, worker_B] ! 1) = Rejected (ErrorObj ''boom'')"
    by (simp add: worker_X_def)
  have m: "error_message (ErrorObj ''boom'') = Inr ''boom''" by simp
  have others: "\<forall>j<length [worker_A, worker_X, worker_B]. j \<noteq> 1 \<longrightarrow>
      (\<exists>f. analyze ([worker_A, worker_X, worker_B] ! j) = Fulfilled f)"
    by (auto simp: less_Suc_eq worker_A_def worker_B_def)
  obtain r w' where
    run: "orchestrate quiet_env (callAI no_credential) [worker_A, worker_X, worker_B] (listening [0])
       = (Fulfilled r, w')"
    and len: "length (allFindings r) = length [worker_A, worker_X, worker_B]"
    and c: "confidence (allFindings r ! 1) = 0" "issues (allFindings r ! 1) = []"
       "suggestions (allFindings r ! 1) = [''Agent failed: '' @ ''boom'']"
    and o: "\<forall>j<length [worker_A, worker_X, worker_B]. j \<noteq> 1 \<longrightarrow>
           analyze ([worker_A, worker_X, worker_B] ! j) = Fulfilled (allFindings r ! j)
           \<and> (\<forall>i\<in>set (issues (allFindings r ! j)).
                 tag_issue [worker_A, worker_X, worker_B] (allFindings r ! j) i
                   \<in> set (prioritizedIssues (synthesizedReport r)))"
    using one_rejection_is_isolated [OF never_raises_quiet ai k x m others, of "listening [0]"]
    by blast
  have a: "analyze worker_A = Fulfilled (allFindings r ! 0)"
    using o [rule_format, of 0] by simp
  have b: "analyze worker_B = Fulfilled (allFindings r ! 2)"
    and bi: "\<forall>i\<in>set (issues (allFindings r ! 2)).
                 tag_issue [worker_A, worker_X, worker_B] (allFindings r ! 2) i
                   \<in> set (prioritizedIssues (synthesizedReport r))"
    using o [rule_format, of 2] by simp_all
  have fb: "allFindings r ! 2 = findings_B" using b by (simp add: worker_B_def)
  have "tag_issue [worker_A, worker_X, worker_B] findings_B (scenario_issue ''B.medium'' Medium)
          \<in> set (prioritizedIssues (synthesizedReport r))"
    using bi unfolding fb by (simp add: findings_B_def scenario_findings_def)
  then show ?thesis using run len c a b by simp
qed


text \<open>
  C6, as the specification states it, fails. The discovery worker, alone, publishes
  10, 30, 60, 80, 100 under its own id, and the Coordinator publishes 5, 10, 75, 90,
  100: the value the interpolation of the specification gives for the worker's 30 is
  not among them. With two workers the Coordinator publishes 5, 10, 40, 75, 90, 100:
  the values at dispatch stay below 70.
\<close>

theorem coordinator_ignores_worker_progress:
  "progress_of discovery_id
     (snd (discovery_analyze quiet_env sound_discovery_page (listening [0])))
     = [10, 30, 60, 80, 100]
   \<and> progress_of coordinator_id
        (snd (orchestrate quiet_env (callAI no_credential) [discovery_worker] (listening [0])))
     = [5, 10, 75, 90, 100]
   \<and> spec_blend 1 0 30 = 59 / 2
   \<and> spec_blend 1 0 30 \<notin> set (progress_of coordinator_id
        (snd (orchestrate quiet_env (callAI no_credential) [discovery_worker] (listening [0]))))
   \<and> progress_of coordinator_id
        (snd (orchestrate quiet_env (callAI no_credential) [worker_A, worker_B] (listening [0])))
     = [5, 10, 40, 75, 90, 100]"
proof -
  obtain f where "fst (discovery_analyze quiet_env sound_discovery_page (listening [0]))
      = Fulfilled f"
    using discovery_sound_fulfils by blast
  then have "promise_all (map guarded_analyze [discovery_worker]) = Fulfilled [f]"
    by (simp add: guarded_analyze_def discovery_worker_def)
  then have one: "progress_of coordinator_id
        (snd (orchestrate quiet_env (callAI no_credential) [discovery_worker] (listening [0])))
     = [5, 10, 75, 90, 100]"
    using quiet_trace [of "[discovery_worker]" "[f]"] by (simp add: dispatch_progress_def)
  have "promise_all (map guarded_analyze [worker_A, worker_B]) = Fulfilled [findings_A, findings_B]"
    by (simp add: guarded_analyze_def worker_A_def worker_B_def)
  then have two: "progress_of coordinator_id
        (snd (orchestrate quiet_env (callAI no_credential) [worker_A, worker_B] (listening [0])))
     = [5, 10, 40, 75, 90, 100]"
    using quiet_trace [of "[worker_A, worker_B]" "[findings_A, findings_B]"]
    by (simp add: dispatch_progress_def upt_rec)
  have blend: "spec_blend 1 0 30 = 59 / 2"
    by (simp add: spec_blend_def)
  show ?thesis
    unfolding one two blend using discovery_sound_progress by simp
qed

text \<open>
  C6, amended. In a completed run the Coordinator's own progress stream is 5 at the
  start, then for the worker at index \<open>j\<close> of \<open>N\<close> the value \<open>10 + (j / N) * 60\<close>,
  published when that worker is dispatched and independent of what the worker reports,
  then 75 before the synthesis, 90 before the summary and 100 at the end. The values at
  dispatch lie between 10 and 70, 70 excluded, and the stream never decreases.
\<close>


theorem coordinator_progress_stream:
  assumes "orchestrate E ai agents w = (Fulfilled r, w')"
  shows "progress_of coordinator_id w'
       = progress_of coordinator_id w
         @ 5 # map (\<lambda>j. dispatch_progress j (length agents)) [0..<length agents] @ [75, 90, 100]
     \<and> (\<forall>j<length agents.
          dispatch_progress j (length agents) = 10 + (of_nat j / of_nat (length agents)) * 60
          \<and> 10 \<le> dispatch_progress j (length agents)
          \<and> dispatch_progress j (length agents) < 70)
     \<and> sorted (5 # map (\<lambda>j. dispatch_progress j (length agents)) [0..<length agents]
                @ [75, 90, 100])"
  using orchestrate_trace [OF assms] dispatch_progress_bounds [of _ "length agents"]
    sorted_coordinator_progress [of "length agents"]
  by (simp add: dispatch_progress_def)

theorem coordinator_progress_stream_witness:
  "\<exists>r w'. orchestrate quiet_env (callAI no_credential) [worker_A, worker_X, worker_B] (listening [0])
       = (Fulfilled r, w')
     \<and> progress_of coordinator_id w' = [5, 10, 30, 50, 75, 90, 100]"
proof -
  obtain r w' where
    run: "orchestrate quiet_env (callAI no_credential) [worker_A, worker_X, worker_B] (listening [0])
       = (Fulfilled r, w')"
    using scenario_run
    by (cases "orchestrate quiet_env (callAI no_credential) [worker_A, worker_X, worker_B]
          (listening [0])") auto
  have "progress_of coordinator_id (listening [0]) = []"
    by (simp add: progress_of_def listening_simps)
  then have "progress_of coordinator_id w' = [5, 10, 30, 50, 75, 90, 100]"
    using coordinator_progress_stream [OF run]
    by (simp add: dispatch_progress_def upt_rec)
  then show ?thesis using run by blast
qed

section \<open>Correlation ids\<close>

text \<open>Decimal numerals determine their number, and contain no dash.\<close>

lemma of_char_digit: "a < 10 \<Longrightarrow> (of_char (digit_char a) :: nat) = 48 + a"
  by (simp add: digit_char_def)

lemma digit_char_inj:
  assumes "a < 10" "b < 10" "digit_char a = digit_char b"
  shows "a = b"
proof -
  have "(of_char (digit_char a) :: nat) = of_char (digit_char b)"
    using assms(3) by (rule arg_cong)
  then have "48 + a = 48 + b"
    unfolding of_char_digit [OF assms(1)] of_char_digit [OF assms(2)] .
  then show ?thesis by simp
qed

lemma digit_char_not_dash:
  assumes "a < 10"
  shows "digit_char a \<noteq> CHR ''-''"
proof
  assume e: "digit_char a = CHR ''-''"
  have "(of_char (digit_char a) :: nat) = of_char (CHR ''-'')"
    using e by (rule arg_cong)
  then have "48 + a = (of_char (CHR ''-'') :: nat)" unfolding of_char_digit [OF assms] .
  then show False by simp
qed

lemma no_dash_in_show_nat: "CHR ''-'' \<notin> set (show_nat n)"
proof (induction n rule: show_nat.induct)
  case (1 n)
  show ?case
  proof (cases "n < 10")
    case True
    then show ?thesis using digit_char_not_dash [of n] by (subst show_nat.simps) auto
  next
    case False
    have "n mod 10 < 10" by simp
    then have "digit_char (n mod 10) \<noteq> CHR ''-''" by (rule digit_char_not_dash)
    then show ?thesis using False 1 by (subst show_nat.simps) auto
  qed
qed

lemma show_nat_digit: "n < 10 \<Longrightarrow> show_nat n = [digit_char n]"
  by (subst show_nat.simps) simp

lemma show_nat_more: "\<not> n < 10 \<Longrightarrow> show_nat n = show_nat (n div 10) @ [digit_char (n mod 10)]"
  by (subst show_nat.simps) simp


lemma recompose:
  assumes d: "m div 10 = n div (10::nat)" and r: "m mod 10 = n mod 10"
  shows "m = n"
proof -
  have "m = 10 * (m div 10) + m mod 10" by simp
  also have "\<dots> = 10 * (n div 10) + n mod 10" by (simp only: d r)
  also have "\<dots> = n" by simp
  finally show ?thesis .
qed

lemma singleton_eq_snoc: "[a] = xs @ [b] \<Longrightarrow> xs = []"
  by (cases xs) simp_all

lemma snoc_eq_singleton: "xs @ [b] = [a] \<Longrightarrow> xs = []"
  by (cases xs) simp_all

lemma show_nat_inj: "show_nat m = show_nat n \<Longrightarrow> m = n"
proof (induction m arbitrary: n rule: show_nat.induct)
  case (1 m)
  note IH = 1(1) and eq0 = 1(2)
  show ?case
  proof (cases "m < 10")
    case m: True
    show ?thesis
    proof (cases "n < 10")
      case True
      have "[digit_char m] = [digit_char n]"
        using eq0 show_nat_digit [OF m] show_nat_digit [OF True] by (simp only:)
      then have "digit_char m = digit_char n" by simp
      with m True show ?thesis by (rule digit_char_inj)
    next
      case False
      have "[digit_char m] = show_nat (n div 10) @ [digit_char (n mod 10)]"
        using eq0 show_nat_digit [OF m] show_nat_more [OF False] by (simp only:)
      then have "show_nat (n div 10) = []" by (rule singleton_eq_snoc)
      then show ?thesis using show_nat_nonempty [of "n div 10"] by (simp only:)
    qed
  next
    case m: False
    show ?thesis
    proof (cases "n < 10")
      case True
      have "show_nat (m div 10) @ [digit_char (m mod 10)] = [digit_char n]"
        using eq0 show_nat_more [OF m] show_nat_digit [OF True] by (simp only:)
      then have "show_nat (m div 10) = []" by (rule snoc_eq_singleton)
      then show ?thesis using show_nat_nonempty [of "m div 10"] by (simp only:)
    next
      case False
      have "show_nat (m div 10) @ [digit_char (m mod 10)]
          = show_nat (n div 10) @ [digit_char (n mod 10)]"
        using eq0 show_nat_more [OF m] show_nat_more [OF False] by (simp only:)
      then have eq: "show_nat (m div 10) = show_nat (n div 10)"
          "digit_char (m mod 10) = digit_char (n mod 10)"
        by simp_all
      have d: "m div 10 = n div 10" using m eq(1) by (rule IH)
      have "m mod 10 < 10" "n mod 10 < 10" by simp_all
      then have r: "m mod 10 = n mod 10" using eq(2) by (rule digit_char_inj)
      from d r show ?thesis by (rule recompose)
    qed
  qed
qed


lemma takeWhile_until: "c \<notin> set ys \<Longrightarrow> takeWhile (\<lambda>x. x \<noteq> c) (ys @ c # zs) = ys"
  by (induction ys) auto

lemma split_at_last:
  assumes e: "xs @ c # ys = xs' @ c # ys'" and n: "c \<notin> set ys" and n': "c \<notin> set ys'"
  shows "xs = xs' \<and> ys = ys'"
proof -
  have "rev (xs @ c # ys) = rev (xs' @ c # ys')" using e by (rule arg_cong)
  then have "rev ys @ c # rev xs = rev ys' @ c # rev xs'" by simp
  then have "takeWhile (\<lambda>x. x \<noteq> c) (rev ys @ c # rev xs)
      = takeWhile (\<lambda>x. x \<noteq> c) (rev ys' @ c # rev xs')"
    by (rule arg_cong)
  moreover have "takeWhile (\<lambda>x. x \<noteq> c) (rev ys @ c # rev xs) = rev ys"
    using n by (intro takeWhile_until) simp
  moreover have "takeWhile (\<lambda>x. x \<noteq> c) (rev ys' @ c # rev xs') = rev ys'"
    using n' by (intro takeWhile_until) simp
  ultimately have "rev ys = rev ys'" by (simp only:)
  then have y: "ys = ys'" by simp
  with e have "xs = xs'" by simp
  with y show ?thesis by (rule conjI [rotated])
qed

lemma message_cid_inj: "message_cid a t = message_cid b u \<longleftrightarrow> a = b \<and> t = u"
proof
  assume "message_cid a t = message_cid b u"
  then have e: "a @ CHR ''-'' # show_nat t = b @ CHR ''-'' # show_nat u"
    by (simp add: message_cid_def)
  have "a = b \<and> show_nat t = show_nat u"
    using e no_dash_in_show_nat [of t] no_dash_in_show_nat [of u] by (rule split_at_last)
  then show "a = b \<and> t = u" using show_nat_inj [of t u] by blast
next
  assume "a = b \<and> t = u"
  then show "message_cid a t = message_cid b u" by (simp only:)
qed


lemma ask_console:
  "console (snd (ask E aid target question w)) = console w @
     [\<lparr> msg_agentId = aid, msg_type = QUESTION, payload = QuestionPayload question target,
        timestamp = clock E (Suc (clock_reads w)),
        correlationId = question_cid aid target (clock E (clock_reads w)) \<rparr>]"
proof -
  define m where "m = \<lparr> msg_agentId = aid, msg_type = QUESTION,
        payload = QuestionPayload question target,
        timestamp = clock E (Suc (clock_reads w)),
        correlationId = question_cid aid target (clock E (clock_reads w)) \<rparr>"
  define w2 where "w2 = snd (date_now E (snd (date_now E w)))"
  obtain r w3 where p: "publish E m w2 = (r, w3)" by (cases "publish E m w2")
  have c: "console w3 = console w @ [m]"
    using publish_console [of E m w2] p by (simp add: w2_def)
  have "console (snd (ask E aid target question w)) = console w3"
    using p by (cases r) (simp_all add: ask_def date_now_def m_def w2_def subscribe_def Let_def)
  then show ?thesis using c by (simp add: m_def)
qed

text \<open>The clock readings behind the correlation ids of a run.\<close>

lemma stampsI:
  assumes "\<And>s r s'. act s = (r, s') \<Longrightarrow>
     \<exists>ks. map correlationId (console (snd s'))
               = map correlationId (console (snd s)) @ map (\<lambda>k. message_cid aid (clock E k)) ks
            \<and> sorted_wrt (<) ks
            \<and> (\<forall>k\<in>set ks. clock_reads (snd s) \<le> k \<and> k < clock_reads (snd s'))
            \<and> clock_reads (snd s) \<le> clock_reads (snd s')"
  shows "stamps E aid act"
  unfolding stamps_def
proof
  fix s
  show "\<exists>ks. map correlationId (console (snd (snd (act s))))
               = map correlationId (console (snd s)) @ map (\<lambda>k. message_cid aid (clock E k)) ks
            \<and> sorted_wrt (<) ks
            \<and> (\<forall>k\<in>set ks. clock_reads (snd s) \<le> k \<and> k < clock_reads (snd (snd (act s))))
            \<and> clock_reads (snd s) \<le> clock_reads (snd (snd (act s)))"
    using assms [of s "fst (act s)" "snd (act s)"] by simp
qed

lemma stampsD:
  assumes "stamps E aid act" "act s = (r, s')"
  shows "\<exists>ks. map correlationId (console (snd s'))
               = map correlationId (console (snd s)) @ map (\<lambda>k. message_cid aid (clock E k)) ks
            \<and> sorted_wrt (<) ks
            \<and> (\<forall>k\<in>set ks. clock_reads (snd s) \<le> k \<and> k < clock_reads (snd s'))
            \<and> clock_reads (snd s) \<le> clock_reads (snd s')"
proof -
  have "snd (act s) = s'" using assms(2) by simp
  then show ?thesis using assms(1) [unfolded stamps_def, rule_format, of s] by simp
qed

lemma stamps_silent:
  assumes "\<And>s. console (snd (snd (act s))) = console (snd s)"
      and "\<And>s. clock_reads (snd s) \<le> clock_reads (snd (snd (act s)))"
  shows "stamps E aid act"
proof (rule stampsI)
  fix s r s'
  assume "act s = (r, s')"
  then have "snd (act s) = s'" by simp
  then have "console (snd s') = console (snd s)" "clock_reads (snd s) \<le> clock_reads (snd s')"
    using assms(1) [of s] assms(2) [of s] by simp_all
  then show "\<exists>ks. map correlationId (console (snd s'))
               = map correlationId (console (snd s)) @ map (\<lambda>k. message_cid aid (clock E k)) ks
            \<and> sorted_wrt (<) ks
            \<and> (\<forall>k\<in>set ks. clock_reads (snd s) \<le> k \<and> k < clock_reads (snd s'))
            \<and> clock_reads (snd s) \<le> clock_reads (snd s')"
    by (intro exI [of _ "[]"]) simp
qed

lemma stamps_simple:
  "stamps E aid (call r)" "stamps E aid (update_findings g)" "stamps E aid (await pr)"
  "stamps E aid get_findings" "stamps E aid (returns x)" "stamps E aid (read_clock E')"
  by (rule stamps_silent;
      simp add: call_def update_findings_def await_def get_findings_def returns_def
        read_clock_def date_now_def split: sum.splits)+

lemma stamps_seq:
  assumes a: "map correlationId (console (snd t))
       = map correlationId (console (snd s)) @ map (\<lambda>k. message_cid aid (clock E k)) ks"
      "sorted_wrt (<) ks" "\<forall>k\<in>set ks. clock_reads (snd s) \<le> k \<and> k < clock_reads (snd t)"
      "clock_reads (snd s) \<le> clock_reads (snd t)"
    and b: "map correlationId (console (snd s'))
       = map correlationId (console (snd t)) @ map (\<lambda>k. message_cid aid (clock E k)) js"
      "sorted_wrt (<) js" "\<forall>k\<in>set js. clock_reads (snd t) \<le> k \<and> k < clock_reads (snd s')"
      "clock_reads (snd t) \<le> clock_reads (snd s')"
  shows "\<exists>ks. map correlationId (console (snd s'))
               = map correlationId (console (snd s)) @ map (\<lambda>k. message_cid aid (clock E k)) ks
            \<and> sorted_wrt (<) ks
            \<and> (\<forall>k\<in>set ks. clock_reads (snd s) \<le> k \<and> k < clock_reads (snd s'))
            \<and> clock_reads (snd s) \<le> clock_reads (snd s')"
proof (intro exI [of _ "ks @ js"] conjI)
  show "map correlationId (console (snd s'))
      = map correlationId (console (snd s)) @ map (\<lambda>k. message_cid aid (clock E k)) (ks @ js)"
    using a(1) b(1) by simp
  have "x < y" if "x \<in> set ks" "y \<in> set js" for x y
  proof -
    have "x < clock_reads (snd t)" using a(3) that(1) by blast
    moreover have "clock_reads (snd t) \<le> y" using b(3) that(2) by blast
    ultimately show ?thesis by simp
  qed
  then show "sorted_wrt (<) (ks @ js)" using a(2) b(2) by (simp add: sorted_wrt_append)
  show "\<forall>k\<in>set (ks @ js). clock_reads (snd s) \<le> k \<and> k < clock_reads (snd s')"
  proof
    fix k assume "k \<in> set (ks @ js)"
    then consider "k \<in> set ks" | "k \<in> set js" by auto
    then show "clock_reads (snd s) \<le> k \<and> k < clock_reads (snd s')"
    proof cases
      case 1
      then have "clock_reads (snd s) \<le> k" "k < clock_reads (snd t)" using a(3) by blast+
      then show ?thesis using b(4) by simp
    next
      case 2
      then have "clock_reads (snd t) \<le> k" "k < clock_reads (snd s')" using b(3) by blast+
      then show ?thesis using a(4) by simp
    qed
  qed
  show "clock_reads (snd s) \<le> clock_reads (snd s')" using a(4) b(4) by simp
qed

lemma stamps_then_do:
  assumes "stamps E aid act" "\<And>x. stamps E aid (rest x)"
  shows "stamps E aid (then_do act rest)"
proof (rule stampsI)
  fix s r s'
  assume run: "then_do act rest s = (r, s')"
  obtain r1 t where a: "act s = (r1, t)" by (cases "act s")
  obtain ks where ks: "map correlationId (console (snd t))
       = map correlationId (console (snd s)) @ map (\<lambda>k. message_cid aid (clock E k)) ks"
      "sorted_wrt (<) ks" "\<forall>k\<in>set ks. clock_reads (snd s) \<le> k \<and> k < clock_reads (snd t)"
      "clock_reads (snd s) \<le> clock_reads (snd t)"
    using stampsD [OF assms(1) a] by blast
  show "\<exists>ks. map correlationId (console (snd s'))
               = map correlationId (console (snd s)) @ map (\<lambda>k. message_cid aid (clock E k)) ks
            \<and> sorted_wrt (<) ks
            \<and> (\<forall>k\<in>set ks. clock_reads (snd s) \<le> k \<and> k < clock_reads (snd s'))
            \<and> clock_reads (snd s) \<le> clock_reads (snd s')"
  proof (cases r1)
    case (Fulfilled x)
    then have b: "rest x t = (r, s')" using run a by (simp add: then_do_def)
    obtain js where js: "map correlationId (console (snd s'))
       = map correlationId (console (snd t)) @ map (\<lambda>k. message_cid aid (clock E k)) js"
      "sorted_wrt (<) js" "\<forall>k\<in>set js. clock_reads (snd t) \<le> k \<and> k < clock_reads (snd s')"
      "clock_reads (snd t) \<le> clock_reads (snd s')"
      using stampsD [OF assms(2) b] by blast
    show ?thesis using ks js by (rule stamps_seq)
  next
    case Pending
    then have "s' = t" using run a by (simp add: then_do_def)
    then show ?thesis using ks by blast
  next
    case (Rejected e)
    then have "s' = t" using run a by (simp add: then_do_def)
    then show ?thesis using ks by blast
  qed
qed

lemma stamps_try:
  assumes "stamps E aid act" "\<And>e. stamps E aid (handler e)"
  shows "stamps E aid (try_catch act handler)"
proof (rule stampsI)
  fix s r s'
  assume run: "try_catch act handler s = (r, s')"
  obtain r1 t where a: "act s = (r1, t)" by (cases "act s")
  obtain ks where ks: "map correlationId (console (snd t))
       = map correlationId (console (snd s)) @ map (\<lambda>k. message_cid aid (clock E k)) ks"
      "sorted_wrt (<) ks" "\<forall>k\<in>set ks. clock_reads (snd s) \<le> k \<and> k < clock_reads (snd t)"
      "clock_reads (snd s) \<le> clock_reads (snd t)"
    using stampsD [OF assms(1) a] by blast
  show "\<exists>ks. map correlationId (console (snd s'))
               = map correlationId (console (snd s)) @ map (\<lambda>k. message_cid aid (clock E k)) ks
            \<and> sorted_wrt (<) ks
            \<and> (\<forall>k\<in>set ks. clock_reads (snd s) \<le> k \<and> k < clock_reads (snd s'))
            \<and> clock_reads (snd s) \<le> clock_reads (snd s')"
  proof (cases r1)
    case (Rejected e)
    then have b: "handler e t = (r, s')" using run a by (simp add: try_catch_def)
    obtain js where js: "map correlationId (console (snd s'))
       = map correlationId (console (snd t)) @ map (\<lambda>k. message_cid aid (clock E k)) js"
      "sorted_wrt (<) js" "\<forall>k\<in>set js. clock_reads (snd t) \<le> k \<and> k < clock_reads (snd s')"
      "clock_reads (snd t) \<le> clock_reads (snd s')"
      using stampsD [OF assms(2) b] by blast
    show ?thesis using ks js by (rule stamps_seq)
  next
    case Pending
    then have "s' = t" using run a by (simp add: try_catch_def)
    then show ?thesis using ks by blast
  next
    case (Fulfilled x)
    then have "s' = t" using run a by (simp add: try_catch_def)
    then show ?thesis using ks by blast
  qed
qed

lemma publish_clock: "clock_reads (snd (publish E m w)) = clock_reads w"
  by (simp add: publish_def)

lemma updateProgress_clock:
  "clock_reads (snd (updateProgress E aid label p w)) = Suc (Suc (clock_reads w))"
  by (simp add: updateProgress_def date_now_def publish_clock)

lemma reportFindings_clock:
  "clock_reads (snd (reportFindings E aid f w)) = Suc (Suc (clock_reads w))"
  by (simp add: reportFindings_def date_now_def publish_clock)

lemma stamps_progress: "stamps E aid (on_bus (updateProgress E aid label p))"
proof (rule stampsI)
  fix s r s'
  assume "on_bus (updateProgress E aid label p) s = (r, s')"
  then have s': "snd s' = snd (updateProgress E aid label p (snd s))"
    by (auto simp: on_bus_def split: prod.splits)
  show "\<exists>ks. map correlationId (console (snd s'))
               = map correlationId (console (snd s)) @ map (\<lambda>k. message_cid aid (clock E k)) ks
            \<and> sorted_wrt (<) ks
            \<and> (\<forall>k\<in>set ks. clock_reads (snd s) \<le> k \<and> k < clock_reads (snd s'))
            \<and> clock_reads (snd s) \<le> clock_reads (snd s')"
    unfolding s' updateProgress_clock updateProgress_console
    by (intro exI [of _ "[Suc (clock_reads (snd s))]"]) simp
qed

lemma stamps_report: "stamps E aid (on_bus (reportFindings E aid f))"
proof (rule stampsI)
  fix s r s'
  assume "on_bus (reportFindings E aid f) s = (r, s')"
  then have s': "snd s' = snd (reportFindings E aid f (snd s))"
    by (auto simp: on_bus_def split: prod.splits)
  show "\<exists>ks. map correlationId (console (snd s'))
               = map correlationId (console (snd s)) @ map (\<lambda>k. message_cid aid (clock E k)) ks
            \<and> sorted_wrt (<) ks
            \<and> (\<forall>k\<in>set ks. clock_reads (snd s) \<le> k \<and> k < clock_reads (snd s'))
            \<and> clock_reads (snd s) \<le> clock_reads (snd s')"
    unfolding s' reportFindings_clock reportFindings_console
    by (intro exI [of _ "[Suc (clock_reads (snd s))]"]) simp
qed

lemma stamps_case_prod:
  "(\<And>a b. stamps E aid (f a b)) \<Longrightarrow> stamps E aid (case x of (a, b) \<Rightarrow> f a b)"
  by (cases x) simp

lemma stamps_if:
  "stamps E aid a \<Longrightarrow> stamps E aid b \<Longrightarrow> stamps E aid (if c then a else b)"
  by simp

lemmas stamps_intros = stamps_then_do stamps_try stamps_progress stamps_report stamps_simple
  stamps_case_prod stamps_if

lemma stamps_worker_run:
  assumes "stamps E aid body"
  shows "stamps E aid (worker_run E aid label p c body)"
  unfolding worker_run_def finish_analysis_def analysis_failed_def
  by (intro stamps_intros assms)

lemma stamps_discovery_try: "stamps E discovery_id (discovery_try E page)"
  unfolding discovery_try_def by (intro stamps_intros)

lemma stamps_accessibility_try: "stamps E accessibility_id (accessibility_try E page ai)"
  unfolding accessibility_try_def accessibility_insights_def by (intro stamps_intros)

lemma stamps_performance_try: "stamps E performance_id (performance_try E page ai)"
  unfolding performance_try_def performance_insights_def by (intro stamps_intros)

lemma stamps_security_try: "stamps E security_id (security_try E page ai)"
  unfolding security_try_def security_insights_def by (intro stamps_intros)

lemma stamps_ux_try: "stamps E ux_id (ux_try E page ai)"
  unfolding ux_try_def ux_insights_def by (intro stamps_intros)

lemma stamps_run_analyze:
  "\<exists>ks. map correlationId (console (snd (run_analyze E wk w)))
            = map correlationId (console w)
              @ map (\<lambda>k. message_cid (worker_id wk) (clock E k)) ks
      \<and> sorted_wrt (<) ks"
proof -
  have frame: "\<exists>ks. map correlationId (console (snd (snd (worker_run E aid label p c body (f0, w)))))
            = map correlationId (console w) @ map (\<lambda>k. message_cid aid (clock E k)) ks
      \<and> sorted_wrt (<) ks"
    if "stamps E aid body" for aid label p c f0 and body :: "(findings \<times> world, unit) action"
  proof -
    obtain r s' where run: "worker_run E aid label p c body (f0, w) = (r, s')"
      by (cases "worker_run E aid label p c body (f0, w)")
    show ?thesis
      using stampsD [OF stamps_worker_run [OF that] run] unfolding run by auto
  qed
  show ?thesis
  proof (cases wk)
    case (DiscoveryWorker page)
    show ?thesis
      unfolding DiscoveryWorker run_analyze.simps worker_id.simps discovery_analyze_eq snd_conv
      by (rule frame [OF stamps_discovery_try])
  next
    case (AccessibilityWorker page ai)
    show ?thesis
      unfolding AccessibilityWorker run_analyze.simps worker_id.simps accessibility_analyze_eq
        snd_conv
      by (rule frame [OF stamps_accessibility_try])
  next
    case (PerformanceWorker page ai)
    show ?thesis
      unfolding PerformanceWorker run_analyze.simps worker_id.simps performance_analyze_eq
        snd_conv
      by (rule frame [OF stamps_performance_try])
  next
    case (SecurityWorker page ai)
    show ?thesis
      unfolding SecurityWorker run_analyze.simps worker_id.simps security_analyze_eq snd_conv
      by (rule frame [OF stamps_security_try])
  next
    case (UXWorker page ai)
    show ?thesis
      unfolding UXWorker run_analyze.simps worker_id.simps ux_analyze_eq snd_conv
      by (rule frame [OF stamps_ux_try])
  qed
qed

lemma distinct_stamps:
  "distinct (map (\<lambda>k. message_cid aid (clock E k)) ks) \<longleftrightarrow> distinct (map (clock E) ks)"
proof -
  have "map (\<lambda>k. message_cid aid (clock E k)) ks = map (message_cid aid) (map (clock E) ks)"
    by simp
  moreover have "inj_on (message_cid aid) A" for A
    by (rule inj_onI) (simp add: message_cid_inj)
  ultimately show ?thesis by (simp only: distinct_map) simp
qed

lemma strict_mono_stamps:
  assumes "strict_mono (clock E)" "sorted_wrt (<) ks"
  shows "distinct (map (clock E) ks)"
proof -
  have "distinct ks" using assms(2) by (simp add: strict_sorted_iff)
  moreover have "inj_on (clock E) (set ks)"
    using assms(1) by (meson strict_mono_imp_inj_on inj_on_subset subset_UNIV)
  ultimately show ?thesis by (simp add: distinct_map)
qed

lemma ticking_run:
  "map correlationId
       (console (snd (run_analyze ticking_env (DiscoveryWorker sound_discovery_page)
                        (listening [0]))))
   = map (message_cid ''discovery'') [1002, 1004, 1006, 1008, 1010, 1013]"
  by (simp add: discovery_analyze_def discovery_try_def run_defs listening_def empty_world_def
      ticking_env_def sound_discovery_page_def discovery_initial_def discovery_id_def)

text \<open>
  C8, as stated, fails. When the clock gives the same millisecond at every reading, the
  five \<open>PROGRESS_UPDATE\<close> messages and the FINDINGS message that one run of the discovery
  worker publishes all carry the correlation id \<open>discovery-1000\<close>.
\<close>

theorem same_millisecond_same_correlationId:
  "map correlationId
     (console (snd (discovery_analyze quiet_env sound_discovery_page (listening [0]))))
     = replicate 6 (message_cid ''discovery'' 1000)
   \<and> \<not> distinct (map correlationId
     (console (snd (discovery_analyze quiet_env sound_discovery_page (listening [0])))))"
  by (simp add: discovery_analyze_def discovery_try_def run_defs listening_def empty_world_def
      quiet_env_def sound_discovery_page_def discovery_initial_def discovery_id_def numeral_eq_Suc)

text \<open>
  C8, amended. In a run of any of the five workers, every message the worker publishes
  carries the correlation id \<open><agentId>-<Date.now()>\<close> of a clock reading of its own,
  later messages of later readings. These ids are pairwise distinct exactly when the
  clock readings are: when the clock advances between any two readings, no two messages
  of the run share a correlation id. The message that \<open>updateProgress\<close> or
  \<open>reportFindings\<close> publishes is stamped with the second clock reading of the call; the
  QUESTION that \<open>ask\<close> publishes carries \<open><agentId>-to-<targetId>-<Date.now()>\<close>. Two
  ids of the first form are equal exactly when the agent id and the clock reading are
  the same.
\<close>

theorem correlationId_is_agent_and_clock:
  "(\<exists>ks. map correlationId (console (snd (run_analyze E wk w)))
            = map correlationId (console w)
              @ map (\<lambda>k. message_cid (worker_id wk) (clock E k)) ks
      \<and> sorted_wrt (<) ks
      \<and> (distinct (map (\<lambda>k. message_cid (worker_id wk) (clock E k)) ks)
           \<longleftrightarrow> distinct (map (clock E) ks))
      \<and> (strict_mono (clock E)
           \<longrightarrow> distinct (map (\<lambda>k. message_cid (worker_id wk) (clock E k)) ks)))
   \<and> correlationId (last (console (snd (updateProgress E aid label p w))))
     = message_cid aid (clock E (Suc (clock_reads w)))
   \<and> correlationId (last (console (snd (reportFindings E aid f w))))
     = message_cid aid (clock E (Suc (clock_reads w)))
   \<and> correlationId (last (console (snd (ask E aid target question w))))
     = question_cid aid target (clock E (clock_reads w))
   \<and> (message_cid a t = message_cid b u \<longleftrightarrow> a = b \<and> t = u)"
proof -
  obtain ks where ks: "map correlationId (console (snd (run_analyze E wk w)))
            = map correlationId (console w)
              @ map (\<lambda>k. message_cid (worker_id wk) (clock E k)) ks"
      "sorted_wrt (<) ks"
    using stamps_run_analyze [of E wk w] by blast
  have "strict_mono (clock E)
      \<longrightarrow> distinct (map (\<lambda>k. message_cid (worker_id wk) (clock E k)) ks)"
    using strict_mono_stamps [OF _ ks(2)] distinct_stamps [of "worker_id wk" E ks] by blast
  then have run: "\<exists>ks. map correlationId (console (snd (run_analyze E wk w)))
            = map correlationId (console w)
              @ map (\<lambda>k. message_cid (worker_id wk) (clock E k)) ks
      \<and> sorted_wrt (<) ks
      \<and> (distinct (map (\<lambda>k. message_cid (worker_id wk) (clock E k)) ks)
           \<longleftrightarrow> distinct (map (clock E) ks))
      \<and> (strict_mono (clock E)
           \<longrightarrow> distinct (map (\<lambda>k. message_cid (worker_id wk) (clock E k)) ks))"
    using ks distinct_stamps [of "worker_id wk" E ks] by blast
  have calls: "correlationId (last (console (snd (updateProgress E aid label p w))))
     = message_cid aid (clock E (Suc (clock_reads w)))"
    "correlationId (last (console (snd (reportFindings E aid f w))))
     = message_cid aid (clock E (Suc (clock_reads w)))"
    "correlationId (last (console (snd (ask E aid target question w))))
     = question_cid aid target (clock E (clock_reads w))"
    by (simp_all add: updateProgress_console reportFindings_console ask_console)
  show ?thesis
    using run calls message_cid_inj [of a t b u] by (intro conjI)
qed

theorem correlationId_is_agent_and_clock_witness:
  "strict_mono (clock ticking_env)
   \<and> distinct (map correlationId
       (console (snd (run_analyze ticking_env (DiscoveryWorker sound_discovery_page)
                        (listening [0])))))"
proof -
  let ?run = "run_analyze ticking_env (DiscoveryWorker sound_discovery_page) (listening [0])"
  let ?cid = "\<lambda>k. message_cid (worker_id (DiscoveryWorker sound_discovery_page))
                  (clock ticking_env k)"
  have m: "strict_mono (clock ticking_env)"
    by (simp add: ticking_env_def strict_mono_def)
  have start: "console (listening [0]) = []" by (simp add: listening_simps)
  note t = correlationId_is_agent_and_clock [where E = ticking_env
      and wk = "DiscoveryWorker sound_discovery_page" and w = "listening [0]"]
  have "\<exists>ks. map correlationId (console (snd ?run))
            = map correlationId (console (listening [0])) @ map ?cid ks
      \<and> sorted_wrt (<) ks
      \<and> (distinct (map ?cid ks) \<longleftrightarrow> distinct (map (clock ticking_env) ks))
      \<and> (strict_mono (clock ticking_env) \<longrightarrow> distinct (map ?cid ks))"
    using t by (rule conjunct1)
  then obtain ks where
    a: "map correlationId (console (snd ?run))
            = map correlationId (console (listening [0])) @ map ?cid ks"
    and d: "strict_mono (clock ticking_env) \<longrightarrow> distinct (map ?cid ks)"
    by blast
  have "distinct (map correlationId (console (snd ?run)))"
    unfolding a start using d m by simp
  then show ?thesis using m by (rule conjI [rotated])
qed

end
